theory Spec2Isabelle
  imports Main "HOL-Library.AList"
begin

section \<open>Text: the string operations the simulator uses\<close>

text \<open>
  Python strings are modelled as \<^typ>\<open>string\<close>. Paths are ASCII text; the two separators
  are the backslash (code 0x5C) and the forward slash.
\<close>

definition bs :: char where
  "bs = CHR 0x5C"

definition dquote :: char where
  "dquote = CHR 0x22"

text \<open>\<^verbatim>\<open>s.split(sep)\<close> for a one-character separator: never an empty list.\<close>

fun split_on :: "char \<Rightarrow> string \<Rightarrow> string list" where
  "split_on sep [] = [[]]"
| "split_on sep (c # cs) =
     (if c = sep then [] # split_on sep cs
      else (c # hd (split_on sep cs)) # tl (split_on sep cs))"

text \<open>\<^verbatim>\<open>sep.join(xs)\<close>.\<close>

fun join :: "string \<Rightarrow> string list \<Rightarrow> string" where
  "join sep [] = []"
| "join sep [x] = x"
| "join sep (x # y # ys) = x @ sep @ join sep (y # ys)"

text \<open>
  \<^verbatim>\<open>s.upper()\<close> on ASCII text: the letters a..z move to A..Z. Python also maps letters
  outside ASCII; the paths considered here are ASCII.
\<close>

definition upper_char :: "char \<Rightarrow> char" where
  "upper_char c =
     (case map_of (zip ''abcdefghijklmnopqrstuvwxyz'' ''ABCDEFGHIJKLMNOPQRSTUVWXYZ'') c of
        Some u \<Rightarrow> u
      | None \<Rightarrow> c)"

definition upper :: "string \<Rightarrow> string" where
  "upper s = map upper_char s"

text \<open>\<^verbatim>\<open>s.replace('/', '\\')\<close>.\<close>

definition normalize_seps :: "string \<Rightarrow> string" where
  "normalize_seps path = map (\<lambda>c. if c = CHR ''/'' then bs else c) path"

subsection \<open>utils.parse_path\<close>

definition parse_path :: "string \<Rightarrow> string list" where
  "parse_path path =
     (if path = [] then []
      else
        let normalized = normalize_seps path;
            parts = split_on bs normalized
        in (case parts of
              [] \<Rightarrow> parts
            | p0 # ps \<Rightarrow>
                if CHR '':'' \<in> set p0 then
                  (let drive = upper p0;
                       drive = (if length drive > 2 then take 2 drive else drive)
                   in drive # ps)
                else parts))"

subsection \<open>utils.is_valid_filename\<close>

definition invalid_chars :: "char list" where
  "invalid_chars = [CHR ''<'', CHR ''>'', CHR '':'', dquote, CHR ''/'', bs, CHR ''|'', CHR ''?'', CHR ''*'']"

definition is_valid_filename :: "string \<Rightarrow> bool" where
  "is_valid_filename filename =
     (if filename = [] \<or> filename = ''.'' \<or> filename = ''..'' then False
      else if list_ex (\<lambda>c. c \<in> set invalid_chars) filename then False
      else if length filename > 255 then False
      else True)"

section \<open>The library and the clock\<close>

text \<open>
  \<^verbatim>\<open>os.path.split\<close> and \<^verbatim>\<open>time.time\<close> belong to the Python library, not to the
  simulator. \<^verbatim>\<open>os.path\<close> is \<^verbatim>\<open>ntpath\<close> on Windows and \<^verbatim>\<open>posixpath\<close> elsewhere (the
  program runs on both: it tests \<^verbatim>\<open>os.name == 'nt'\<close>), so the operations take the split
  function from an environment. The clock is the sequence of values that successive
  calls of \<^verbatim>\<open>time.time()\<close> return; the state counts the calls made so far. Timestamps
  are never computed with, so their type is a parameter.
\<close>

record 't env =
  os_path_split :: "string \<Rightarrow> string \<times> string"
  clock :: "nat \<Rightarrow> 't"

subsection \<open>posixpath.split\<close>

definition rstrip :: "char list \<Rightarrow> string \<Rightarrow> string" where
  "rstrip seps s = rev (dropWhile (\<lambda>c. c \<in> set seps) (rev s))"

definition posixpath_split :: "string \<Rightarrow> string \<times> string" where
  "posixpath_split p =
     (let tail = rev (takeWhile (\<lambda>c. c \<noteq> CHR ''/'') (rev p));
          head = rev (dropWhile (\<lambda>c. c \<noteq> CHR ''/'') (rev p));
          head = (if head \<noteq> [] \<and> head \<noteq> replicate (length head) (CHR ''/'')
                  then rstrip ''/'' head else head)
      in (head, tail))"

subsection \<open>ntpath.split\<close>

text \<open>\<^verbatim>\<open>s.find(sep, start)\<close>: the first index at or after \<open>start\<close>, if any.\<close>

definition find_from :: "char \<Rightarrow> nat \<Rightarrow> string \<Rightarrow> nat option" where
  "find_from sep start s =
     (case filter (\<lambda>i. s ! i = sep) [start ..< length s] of [] \<Rightarrow> None | i # _ \<Rightarrow> Some i)"

text \<open>
  \<^verbatim>\<open>ntpath.splitdrive\<close> as in CPython 3.4 to 3.10: a share prefix of two separators,
  host and share name, or a drive letter with its colon. From 3.11 on the library returns
  another drive for some paths that begin with two separators; no property below is
  stated for such a path.
\<close>

definition ntpath_splitdrive :: "string \<Rightarrow> string \<times> string" where
  "ntpath_splitdrive p =
     (if length p \<ge> 2 then
        (let normp = normalize_seps p in
         if take 2 normp = [bs, bs] \<and> take 1 (drop 2 normp) \<noteq> [bs] then
           (case find_from bs 2 normp of
              None \<Rightarrow> ([], p)
            | Some index \<Rightarrow>
                (case find_from bs (index + 1) normp of
                   None \<Rightarrow> (p, [])
                 | Some index2 \<Rightarrow>
                     if index2 = index + 1 then ([], p)
                     else (take index2 p, drop index2 p)))
         else if take 1 (drop 1 normp) = '':'' then (take 2 p, drop 2 p)
         else ([], p))
      else ([], p))"

definition ntpath_split :: "string \<Rightarrow> string \<times> string" where
  "ntpath_split p0 =
     (let seps = [bs, CHR ''/''];
          (d, p) = ntpath_splitdrive p0;
          tail = rev (takeWhile (\<lambda>c. c \<notin> set seps) (rev p));
          head = rev (dropWhile (\<lambda>c. c \<notin> set seps) (rev p));
          head = (if rstrip seps head \<noteq> [] then rstrip seps head else head)
      in (d @ head, tail))"

section \<open>The tree\<close>

text \<open>
  A node is a Python dict with the key \<^verbatim>\<open>type\<close>: a directory has name, created,
  modified and content (a dict from names to nodes, kept in insertion order); a file
  has name, created, modified, size and content (its text).
\<close>

datatype 't node =
    Dir string 't 't "(string \<times> 't node) list"
  | File string 't 't int string

datatype ntype = TDir | TFile

fun node_type :: "'t node \<Rightarrow> ntype" where
  "node_type (Dir _ _ _ _) = TDir"
| "node_type (File _ _ _ _ _) = TFile"

fun node_name :: "'t node \<Rightarrow> string" where
  "node_name (Dir n _ _ _) = n"
| "node_name (File n _ _ _ _) = n"

fun node_created :: "'t node \<Rightarrow> 't" where
  "node_created (Dir _ c _ _) = c"
| "node_created (File _ c _ _ _) = c"

fun node_modified :: "'t node \<Rightarrow> 't" where
  "node_modified (Dir _ _ m _) = m"
| "node_modified (File _ _ m _ _) = m"

text \<open>\<^verbatim>\<open>item.get("size", 0)\<close>: a directory has no size key.\<close>

fun node_size :: "'t node \<Rightarrow> int" where
  "node_size (Dir _ _ _ _) = 0"
| "node_size (File _ _ _ sz _) = sz"

fun children :: "'t node \<Rightarrow> (string \<times> 't node) list" where
  "children (Dir _ _ _ ch) = ch"
| "children (File _ _ _ _ _) = []"

text \<open>
  Python hands out references to nodes and mutates them in place. No node has two
  parents, so a reference is modelled by the node's location: the keys from the root.
\<close>

type_synonym loc = "string list"

fun get_at :: "'t node \<Rightarrow> loc \<Rightarrow> 't node option" where
  "get_at n [] = Some n"
| "get_at n (k # ks) =
     (case n of
        Dir _ _ _ ch \<Rightarrow> (case map_of ch k of None \<Rightarrow> None | Some c \<Rightarrow> get_at c ks)
      | File _ _ _ _ _ \<Rightarrow> None)"

text \<open>Replace the value stored under a key that is present, in place.\<close>

fun map_entry :: "string \<Rightarrow> ('a \<Rightarrow> 'a) \<Rightarrow> (string \<times> 'a) list \<Rightarrow> (string \<times> 'a) list" where
  "map_entry k f [] = []"
| "map_entry k f ((k', v) # ps) = (if k' = k then (k', f v) # ps else (k', v) # map_entry k f ps)"

fun update_at :: "'t node \<Rightarrow> loc \<Rightarrow> ('t node \<Rightarrow> 't node) \<Rightarrow> 't node" where
  "update_at n [] f = f n"
| "update_at n (k # ks) f =
     (case n of
        Dir nm cr md ch \<Rightarrow> Dir nm cr md (map_entry k (\<lambda>c. update_at c ks f) ch)
      | File _ _ _ _ _ \<Rightarrow> n)"

text \<open>The mutations of one node that the operations perform.\<close>

fun set_child :: "string \<Rightarrow> 't node \<Rightarrow> 't node \<Rightarrow> 't node" where
  "set_child k v (Dir nm cr md ch) = Dir nm cr md (AList.update k v ch)"
| "set_child k v (File nm cr md sz txt) = File nm cr md sz txt"

fun del_child :: "string \<Rightarrow> 't node \<Rightarrow> 't node" where
  "del_child k (Dir nm cr md ch) = Dir nm cr md (AList.delete k ch)"
| "del_child k (File nm cr md sz txt) = File nm cr md sz txt"

fun set_modified :: "'t \<Rightarrow> 't node \<Rightarrow> 't node" where
  "set_modified t (Dir nm cr md ch) = Dir nm cr t ch"
| "set_modified t (File nm cr md sz txt) = File nm cr t sz txt"

fun set_name :: "string \<Rightarrow> 't node \<Rightarrow> 't node" where
  "set_name n (Dir nm cr md ch) = Dir n cr md ch"
| "set_name n (File nm cr md sz txt) = File n cr md sz txt"

section \<open>The file system\<close>

record 't fs =
  root :: "'t node"
  current_path :: "string list"
  total_space :: int
  used_space :: int
  ticks :: nat

datatype exn = ValueError | IOError | TypeError | IndexError | RecursionError

text \<open>One call of \<^verbatim>\<open>time.time()\<close>.\<close>

definition time_time :: "'t env \<Rightarrow> 't fs \<Rightarrow> 't \<times> 't fs" where
  "time_time env s = (clock env (ticks s), s\<lparr>ticks := Suc (ticks s)\<rparr>)"

subsection \<open>FileSystem._calculate_used_space, get_free_space\<close>

fun calculate_used_space :: "'t node \<Rightarrow> int" where
  "calculate_used_space (File _ _ _ sz _) = sz"
| "calculate_used_space (Dir _ _ _ ch) = sum_list (map (\<lambda>kc. calculate_used_space (snd kc)) ch)"

definition get_free_space :: "'t fs \<Rightarrow> int \<times> 't fs" where
  "get_free_space s =
     (let s1 = s\<lparr>used_space := calculate_used_space (root s)\<rparr>
      in (total_space s1 - used_space s1, s1))"

subsection \<open>FileSystem._get_node_at_path\<close>

text \<open>
  The loop over the remaining segments. \<open>current\<close> is the reference held by the loop
  (\<open>None\<close> is Python's \<^verbatim>\<open>None\<close>, on which \<^verbatim>\<open>current["type"]\<close> raises TypeError).
  The test \<^verbatim>\<open>i < len(parts) - 1\<close> says that the segment is not the last of the list:
  that some segment follows it.
\<close>

fun traverse :: "'t env \<Rightarrow> bool \<Rightarrow> string list \<Rightarrow> loc option \<Rightarrow> 't fs \<Rightarrow> (exn + loc option) \<times> 't fs" where
  "traverse env create_dirs [] current s = (Inr current, s)"
| "traverse env create_dirs (part # rest) current s =
     (if part = [] then traverse env create_dirs rest current s
      else
        (case current of
           None \<Rightarrow> (Inl TypeError, s)
         | Some l \<Rightarrow>
             (case get_at (root s) l of
                None \<Rightarrow> (Inl TypeError, s)
              | Some (File _ _ _ _ _) \<Rightarrow> (Inr None, s)
              | Some (Dir _ _ _ content) \<Rightarrow>
                  (case map_of content part of
                     Some _ \<Rightarrow> traverse env create_dirs rest (Some (l @ [part])) s
                   | None \<Rightarrow>
                       if create_dirs \<and> rest \<noteq> [] then
                         (let (created, s1) = time_time env s;
                              (modified, s2) = time_time env s1;
                              s3 = s2\<lparr>root := update_at (root s2) l
                                     (set_child part (Dir part created modified []))\<rparr>
                          in traverse env create_dirs rest (Some (l @ [part])) s3)
                       else (Inr None, s)))))"

text \<open>The step that drops one leading \<^verbatim>\<open>.\<close> segment.\<close>

definition skip_dot :: "string list \<Rightarrow> string list" where
  "skip_dot parts = (if parts \<noteq> [] \<and> hd parts = ''.'' then tl parts else parts)"

text \<open>
  The method calls itself, through \<^verbatim>\<open>_get_current_node\<close> and for the parent of the
  current directory; the nested calls never create directories. \<open>depth\<close> bounds the
  nesting of calls, and a call that would go deeper raises RecursionError, as Python
  does at its recursion limit. Lemma \<open>get_node_at_path_d_stable\<close> below shows that
  every depth from three on gives the same result.
\<close>

fun get_node_at_path_d :: "nat \<Rightarrow> 't env \<Rightarrow> 't fs \<Rightarrow> string \<Rightarrow> bool \<Rightarrow> (exn + loc option) \<times> 't fs" where
  "get_node_at_path_d 0 env s path create_dirs = (Inl RecursionError, s)"
| "get_node_at_path_d (Suc depth) env s path create_dirs =
     (if path = [] \<or> path = ''C:'' \<or> path = ''C:'' @ [bs] then (Inr (Some []), s)
      else
        (case parse_path path of
           [] \<Rightarrow> (Inr (Some []), s)
         | p0 # ps \<Rightarrow>
             if p0 = ''C:'' then traverse env create_dirs ps (Some []) s
             else
               (case get_node_at_path_d depth env s (join [bs] (current_path s)) False of
                  (Inl e, s1) \<Rightarrow> (Inl e, s1)
                | (Inr current, s1) \<Rightarrow>
                    (case
                       (if p0 = ''..'' then
                          (if length (current_path s1) > 1 then
                             (case get_node_at_path_d depth env s1
                                     (join [bs] (butlast (current_path s1))) False of
                                (Inl e, s2) \<Rightarrow> (Inl e, s2)
                              | (Inr parent, s2) \<Rightarrow> (Inr (ps, parent), s2))
                           else (Inr (ps, Some []), s1))
                        else (Inr (p0 # ps, current), s1))
                     of
                       (Inl e, s2) \<Rightarrow> (Inl e, s2)
                     | (Inr (parts, current'), s2) \<Rightarrow>
                         traverse env create_dirs (skip_dot parts) current' s2))))"

definition get_node_at_path :: "'t env \<Rightarrow> 't fs \<Rightarrow> string \<Rightarrow> bool \<Rightarrow> (exn + loc option) \<times> 't fs" where
  "get_node_at_path env s path create_dirs =
     get_node_at_path_d (Suc (Suc (Suc 0))) env s path create_dirs"

definition get_current_node :: "'t env \<Rightarrow> 't fs \<Rightarrow> (exn + loc option) \<times> 't fs" where
  "get_current_node env s = get_node_at_path env s (join [bs] (current_path s)) False"

definition resolve_path :: "'t env \<Rightarrow> 't fs \<Rightarrow> string \<Rightarrow> (exn + loc option) \<times> 't fs" where
  "resolve_path env s path = get_node_at_path env s path False"

text \<open>The node a reference denotes: \<open>None\<close> for Python's \<^verbatim>\<open>None\<close>.\<close>

definition deref :: "'t fs \<Rightarrow> loc option \<Rightarrow> 't node option" where
  "deref s r = (case r of None \<Rightarrow> None | Some l \<Rightarrow> get_at (root s) l)"

subsection \<open>FileSystem.list_directory\<close>

record 't entry =
  entry_name :: string
  entry_type :: ntype
  entry_size :: int
  entry_created :: "'t"
  entry_modified :: "'t"

definition pseudo_entry :: "string \<Rightarrow> 't \<Rightarrow> 't \<Rightarrow> 't entry" where
  "pseudo_entry n cr md =
     \<lparr>entry_name = n, entry_type = TDir, entry_size = 0, entry_created = cr, entry_modified = md\<rparr>"

definition child_entry :: "string \<times> 't node \<Rightarrow> 't entry" where
  "child_entry kc =
     \<lparr>entry_name = fst kc, entry_type = node_type (snd kc), entry_size = node_size (snd kc),
      entry_created = node_created (snd kc), entry_modified = node_modified (snd kc)\<rparr>"

definition list_directory :: "'t env \<Rightarrow> 't fs \<Rightarrow> string \<Rightarrow> (exn + 't entry list) \<times> 't fs" where
  "list_directory env s path =
     (case get_node_at_path env s path False of
        (Inl e, s1) \<Rightarrow> (Inl e, s1)
      | (Inr r, s1) \<Rightarrow>
          (case deref s1 r of
             None \<Rightarrow> (Inr [], s1)
           | Some (File _ _ _ _ _) \<Rightarrow> (Inr [], s1)
           | Some (Dir nm cr md content) \<Rightarrow>
               (let files = [pseudo_entry ''.'' cr md] in
                if path \<noteq> ''C:'' \<and> path \<noteq> ''C:'' @ [bs] then
                  (case (if path = ''.'' then get_node_at_path env s1 ''..'' False
                         else get_node_at_path env s1 (fst (os_path_split env path)) False) of
                     (Inl e, s2) \<Rightarrow> (Inl e, s2)
                   | (Inr pr, s2) \<Rightarrow>
                       (let dotdot =
                          (case deref s2 pr of
                             Some parent_node \<Rightarrow>
                               pseudo_entry ''..'' (node_created parent_node) (node_modified parent_node)
                           | None \<Rightarrow> pseudo_entry ''..'' cr md)
                        in (Inr (files @ [dotdot] @ map child_entry content), s2)))
                else (Inr (files @ map child_entry content), s1))))"

subsection \<open>FileSystem.change_directory\<close>

text \<open>The loop of the relative branch over the parsed segments.\<close>

fun cd_relative :: "string list \<Rightarrow> string list \<Rightarrow> string list" where
  "cd_relative cp [] = cp"
| "cd_relative cp (part # rest) =
     (if part = ''..'' then cd_relative (if length cp > 1 then butlast cp else cp) rest
      else if part \<noteq> ''.'' \<and> part \<noteq> [] then cd_relative (cp @ [part]) rest
      else cd_relative cp rest)"

definition change_directory :: "'t env \<Rightarrow> 't fs \<Rightarrow> string \<Rightarrow> (exn + bool) \<times> 't fs" where
  "change_directory env s path =
     (case get_node_at_path env s path False of
        (Inl e, s1) \<Rightarrow> (Inl e, s1)
      | (Inr r, s1) \<Rightarrow>
          (case deref s1 r of
             None \<Rightarrow> (Inr False, s1)
           | Some (File _ _ _ _ _) \<Rightarrow> (Inr False, s1)
           | Some (Dir _ _ _ _) \<Rightarrow>
               if path = ''..'' then
                 (Inr True, if length (current_path s1) > 1
                            then s1\<lparr>current_path := butlast (current_path s1)\<rparr> else s1)
               else if path = ''.'' then (Inr True, s1)
               else if take 2 path = ''C:'' then
                 (case parse_path path of
                    [] \<Rightarrow> (Inl IndexError, s1)
                  | p0 # ps \<Rightarrow>
                      (Inr True, if p0 = ''C:'' then s1\<lparr>current_path := p0 # ps\<rparr> else s1))
               else
                 (Inr True, s1\<lparr>current_path := cd_relative (current_path s1) (parse_path path)\<rparr>)))"

subsection \<open>FileSystem.create_directory, remove_directory\<close>

text \<open>\<^verbatim>\<open>dirname or "."\<close>.\<close>

definition or_dot :: "string \<Rightarrow> string" where
  "or_dot dirname = (if dirname = [] then ''.'' else dirname)"

definition create_directory :: "'t env \<Rightarrow> 't fs \<Rightarrow> string \<Rightarrow> (exn + bool) \<times> 't fs" where
  "create_directory env s path =
     (let (dirname, basename) = os_path_split env path in
      if \<not> is_valid_filename basename then (Inr False, s)
      else
        (case get_node_at_path env s (or_dot dirname) False of
           (Inl e, s1) \<Rightarrow> (Inl e, s1)
         | (Inr None, s1) \<Rightarrow> (Inr False, s1)
         | (Inr (Some l), s1) \<Rightarrow>
             (case get_at (root s1) l of
                None \<Rightarrow> (Inr False, s1)
              | Some (File _ _ _ _ _) \<Rightarrow> (Inr False, s1)
              | Some (Dir _ _ _ content) \<Rightarrow>
                  if map_of content basename \<noteq> None then (Inr False, s1)
                  else
                    (let (created, s2) = time_time env s1;
                         (modified, s3) = time_time env s2;
                         s4 = s3\<lparr>root := update_at (root s3) l
                                (set_child basename (Dir basename created modified []))\<rparr>;
                         (now, s5) = time_time env s4
                     in (Inr True, s5\<lparr>root := update_at (root s5) l (set_modified now)\<rparr>)))))"

definition remove_directory :: "'t env \<Rightarrow> 't fs \<Rightarrow> string \<Rightarrow> (exn + bool) \<times> 't fs" where
  "remove_directory env s path =
     (let (dirname, basename) = os_path_split env path in
      case get_node_at_path env s (or_dot dirname) False of
        (Inl e, s1) \<Rightarrow> (Inl e, s1)
      | (Inr None, s1) \<Rightarrow> (Inr False, s1)
      | (Inr (Some l), s1) \<Rightarrow>
          (case get_at (root s1) l of
             None \<Rightarrow> (Inr False, s1)
           | Some (File _ _ _ _ _) \<Rightarrow> (Inr False, s1)
           | Some (Dir _ _ _ content) \<Rightarrow>
               (case map_of content basename of
                  None \<Rightarrow> (Inr False, s1)
                | Some (File _ _ _ _ _) \<Rightarrow> (Inr False, s1)
                | Some (Dir _ _ _ dir_content) \<Rightarrow>
                    if dir_content \<noteq> [] \<and> length dir_content > 0 then (Inr False, s1)
                    else
                      (let s2 = s1\<lparr>root := update_at (root s1) l (del_child basename)\<rparr>;
                           (now, s3) = time_time env s2
                       in (Inr True, s3\<lparr>root := update_at (root s3) l (set_modified now)\<rparr>)))))"

subsection \<open>FileSystem.read_file, write_file, copy_file\<close>

definition read_file :: "'t env \<Rightarrow> 't fs \<Rightarrow> string \<Rightarrow> (exn + string option) \<times> 't fs" where
  "read_file env s path =
     (case get_node_at_path env s path False of
        (Inl e, s1) \<Rightarrow> (Inl e, s1)
      | (Inr r, s1) \<Rightarrow>
          (case deref s1 r of
             Some (File _ _ _ _ txt) \<Rightarrow> (Inr (Some txt), s1)
           | _ \<Rightarrow> (Inr None, s1)))"

text \<open>What the write stores under the file's name in its parent directory.\<close>

fun write_entry :: "string \<Rightarrow> 't \<Rightarrow> string \<Rightarrow> 't node option \<Rightarrow> 't node" where
  "write_entry basename now txt (Some (File nm cr md sz old)) = File nm cr now (int (length txt)) txt"
| "write_entry basename now txt _ = File basename now now (int (length txt)) txt"

definition write_file :: "'t env \<Rightarrow> 't fs \<Rightarrow> string \<Rightarrow> string \<Rightarrow> (exn + bool) \<times> 't fs" where
  "write_file env s path txt =
     (let (dirname, basename) = os_path_split env path in
      if \<not> is_valid_filename basename then (Inl ValueError, s)
      else
        (case get_node_at_path env s (or_dot dirname) True of
           (Inl e, s1) \<Rightarrow> (Inl e, s1)
         | (Inr None, s1) \<Rightarrow> (Inl ValueError, s1)
         | (Inr (Some l), s1) \<Rightarrow>
             (case get_at (root s1) l of
                None \<Rightarrow> (Inl ValueError, s1)
              | Some (File _ _ _ _ _) \<Rightarrow> (Inl ValueError, s1)
              | Some (Dir _ _ _ content) \<Rightarrow>
                  (let file_size = int (length txt);
                       existing_size =
                         (case map_of content basename of
                            Some (File _ _ _ sz _) \<Rightarrow> sz
                          | _ \<Rightarrow> 0);
                       (free, s2) = get_free_space s1
                   in if free + existing_size < file_size then (Inl IOError, s2)
                      else
                        (let (now, s3) = time_time env s2;
                             s4 = s3\<lparr>root := update_at (root s3) l
                                    (set_child basename
                                       (write_entry basename now txt (map_of content basename)))\<rparr>
                         in (Inr True, s4\<lparr>root := update_at (root s4) l (set_modified now)\<rparr>))))))"

definition copy_file :: "'t env \<Rightarrow> 't fs \<Rightarrow> string \<Rightarrow> string \<Rightarrow> (exn + bool) \<times> 't fs" where
  "copy_file env s source destination =
     (case read_file env s source of
        (Inl e, s1) \<Rightarrow> (Inl e, s1)
      | (Inr None, s1) \<Rightarrow> (Inr False, s1)
      | (Inr (Some txt), s1) \<Rightarrow>
          (case write_file env s1 destination txt of
             (Inl e, s2) \<Rightarrow> (Inr False, s2)
           | (Inr _, s2) \<Rightarrow> (Inr True, s2)))"

subsection \<open>FileSystem.delete_file, rename_file\<close>

definition delete_file :: "'t env \<Rightarrow> 't fs \<Rightarrow> string \<Rightarrow> (exn + bool) \<times> 't fs" where
  "delete_file env s path =
     (let (dirname, basename) = os_path_split env path in
      case get_node_at_path env s (or_dot dirname) False of
        (Inl e, s1) \<Rightarrow> (Inl e, s1)
      | (Inr None, s1) \<Rightarrow> (Inr False, s1)
      | (Inr (Some l), s1) \<Rightarrow>
          (case get_at (root s1) l of
             None \<Rightarrow> (Inr False, s1)
           | Some (File _ _ _ _ _) \<Rightarrow> (Inr False, s1)
           | Some (Dir _ _ _ content) \<Rightarrow>
               (case map_of content basename of
                  None \<Rightarrow> (Inr False, s1)
                | Some (Dir _ _ _ _) \<Rightarrow> (Inr False, s1)
                | Some (File _ _ _ _ _) \<Rightarrow>
                    (let s2 = s1\<lparr>root := update_at (root s1) l (del_child basename)\<rparr>;
                         (now, s3) = time_time env s2
                     in (Inr True, s3\<lparr>root := update_at (root s3) l (set_modified now)\<rparr>)))))"

definition rename_file :: "'t env \<Rightarrow> 't fs \<Rightarrow> string \<Rightarrow> string \<Rightarrow> (exn + bool) \<times> 't fs" where
  "rename_file env s oldpath newname =
     (let (dirname, oldname) = os_path_split env oldpath in
      if \<not> is_valid_filename newname then (Inr False, s)
      else
        (case get_node_at_path env s (or_dot dirname) False of
           (Inl e, s1) \<Rightarrow> (Inl e, s1)
         | (Inr None, s1) \<Rightarrow> (Inr False, s1)
         | (Inr (Some l), s1) \<Rightarrow>
             (case get_at (root s1) l of
                None \<Rightarrow> (Inr False, s1)
              | Some (File _ _ _ _ _) \<Rightarrow> (Inr False, s1)
              | Some (Dir _ _ _ content) \<Rightarrow>
                  (case map_of content oldname of
                     None \<Rightarrow> (Inr False, s1)
                   | Some node \<Rightarrow>
                       if map_of content newname \<noteq> None then (Inr False, s1)
                       else
                         (let s2 = s1\<lparr>root := update_at (root s1) l
                                      (del_child oldname \<circ> set_child newname (set_name newname node))\<rparr>;
                              (now, s3) = time_time env s2
                          in (Inr True, s3\<lparr>root := update_at (root s3) l (set_modified now)\<rparr>))))))"

subsection \<open>FileSystem.__init__\<close>

definition readme_text :: string where
  "readme_text =
     ''Welcome to DOS-Simulator!'' @ [CHR ''\<newline>'', CHR ''\<newline>''] @
     ''This is a Python-based simulation of an MS-DOS like environment.'' @ [CHR ''\<newline>''] @
     ''Type HELP to see available commands.'' @ [CHR ''\<newline>'', CHR ''\<newline>''] @
     ''Enjoy exploring the virtual DOS system!''"

definition init_fs :: "'t env \<Rightarrow> 't fs" where
  "init_fs env =
     (let r = Dir ''C:'' (clock env 0) (clock env 1)
                [(''DOS'', Dir ''DOS'' (clock env 2) (clock env 3)
                    [(''README.TXT'', File ''README.TXT'' (clock env 4) (clock env 5) 177 readme_text)])]
      in \<lparr>root = r, current_path = [''C:''], total_space = 10 * 1024 * 1024,
          used_space = calculate_used_space r, ticks = 6\<rparr>)"

definition nt_env :: "nat env" where
  "nt_env = \<lparr>os_path_split = ntpath_split, clock = (\<lambda>n. n)\<rparr>"

definition posix_env :: "nat env" where
  "posix_env = \<lparr>os_path_split = posixpath_split, clock = (\<lambda>n. n)\<rparr>"

section \<open>Notions used to state the properties\<close>

text \<open>
  A path is rooted when the method answers it from the root alone: the empty path, the
  drive, or a path whose first parsed segment is the drive.
\<close>

definition is_rooted :: "string \<Rightarrow> bool" where
  "is_rooted path =
     (path = [] \<or> path = ''C:'' \<or> path = ''C:'' @ [bs] \<or>
      (case parse_path path of [] \<Rightarrow> True | p0 # _ \<Rightarrow> p0 = ''C:''))"

definition rooted_ref :: "'t env \<Rightarrow> 't fs \<Rightarrow> string \<Rightarrow> bool \<Rightarrow> (exn + loc option) \<times> 't fs" where
  "rooted_ref env s path cd =
     (if path = [] \<or> path = ''C:'' \<or> path = ''C:'' @ [bs] then (Inr (Some []), s)
      else (case parse_path path of
              [] \<Rightarrow> (Inr (Some []), s)
            | p0 # ps \<Rightarrow> traverse env cd ps (Some []) s))"

definition cur_ref :: "'t env \<Rightarrow> 't fs \<Rightarrow> exn + loc option" where
  "cur_ref env s = fst (get_node_at_path_d (Suc 0) env s (join [bs] (current_path s)) False)"

definition parent_ref :: "'t env \<Rightarrow> 't fs \<Rightarrow> exn + loc option" where
  "parent_ref env s =
     fst (get_node_at_path_d (Suc (Suc 0)) env s (join [bs] (butlast (current_path s))) False)"

definition addressed :: "'t env \<Rightarrow> 't fs \<Rightarrow> string \<Rightarrow> (loc \<times> string \<times> 't node) option" where
  "addressed env s path =
     (let (dirname, basename) = os_path_split env path in
      case get_node_at_path env s (or_dot dirname) False of
        (Inr (Some l), s1) \<Rightarrow>
          (case get_at (root s1) l of
             Some (Dir _ _ _ content) \<Rightarrow>
               (case map_of content basename of
                  Some n \<Rightarrow> Some (l, basename, n)
                | None \<Rightarrow> None)
           | _ \<Rightarrow> None)
      | _ \<Rightarrow> None)"

definition drive_segment :: "string \<Rightarrow> string" where
  "drive_segment p0 =
     (if CHR '':'' \<in> set p0 then
        (let drive = upper p0 in if length drive > 2 then take 2 drive else drive)
      else p0)"

definition nonempty :: "string list \<Rightarrow> string list" where
  "nonempty parts = filter (\<lambda>p. p \<noteq> []) parts"

definition lookup :: "'t node \<Rightarrow> loc \<Rightarrow> loc option" where
  "lookup r l = (if get_at r l \<noteq> None then Some l else None)"

datatype anchor = FromRoot | FromParent | FromCurrent

definition anchor_of :: "string \<Rightarrow> anchor" where
  "anchor_of path =
     (if is_rooted path then FromRoot
      else if hd (parse_path path) = ''..'' then FromParent
      else FromCurrent)"

definition walk_parts :: "string \<Rightarrow> string list" where
  "walk_parts path =
     (if is_rooted path then tl (parse_path path)
      else if hd (parse_path path) = ''..'' then skip_dot (tl (parse_path path))
      else skip_dot (parse_path path))"

definition anchor_ref :: "'t env \<Rightarrow> 't fs \<Rightarrow> anchor \<Rightarrow> exn + loc option" where
  "anchor_ref env s a =
     (case a of
        FromRoot \<Rightarrow> Inr (Some [])
      | FromCurrent \<Rightarrow> cur_ref env s
      | FromParent \<Rightarrow>
          (case cur_ref env s of
             Inl e \<Rightarrow> Inl e
           | Inr _ \<Rightarrow> if length (current_path s) > 1 then parent_ref env s else Inr (Some [])))"

definition same_entry :: "'t node \<Rightarrow> 't node \<Rightarrow> bool" where
  "same_entry n n' =
     (case n of
        File _ _ _ _ _ \<Rightarrow> n' = n
      | Dir nm cr md _ \<Rightarrow> n' = Dir nm cr md (children n'))"

definition mk_dir :: "'t env \<Rightarrow> 't fs \<Rightarrow> loc \<Rightarrow> string \<Rightarrow> 't fs" where
  "mk_dir env s l part =
     (let (created, s1) = time_time env s;
          (modified, s2) = time_time env s1
      in s2\<lparr>root := update_at (root s2) l (set_child part (Dir part created modified []))\<rparr>)"

definition grows :: "bool \<Rightarrow> string set \<Rightarrow> 't fs \<Rightarrow> 't fs \<Rightarrow> bool" where
  "grows cd names s s' =
     ((\<forall>m n. get_at (root s) m = Some n \<longrightarrow>
          (\<exists>n'. get_at (root s') m = Some n' \<and> same_entry n n')) \<and>
      (\<forall>m n. get_at (root s) m = None \<longrightarrow> get_at (root s') m = Some n \<longrightarrow>
          cd \<and> m \<noteq> [] \<and> last m \<noteq> [] \<and> last m \<in> names \<and>
          (\<exists>c md ch. n = Dir (last m) c md ch)) \<and>
      current_path s' = current_path s \<and> total_space s' = total_space s \<and>
      used_space s' = used_space s \<and>
      calculate_used_space (root s') = calculate_used_space (root s) \<and>
      ticks s \<le> ticks s')"

definition segments :: "string \<Rightarrow> anchor \<times> string list" where
  "segments path = (anchor_of path, nonempty (walk_parts path))"

definition existing_size :: "(string \<times> 't node) list \<Rightarrow> string \<Rightarrow> int" where
  "existing_size content basename =
     (case map_of content basename of Some (File _ _ _ sz _) \<Rightarrow> sz | _ \<Rightarrow> 0)"

definition is_dir_ref :: "'t fs \<Rightarrow> loc option \<Rightarrow> bool" where
  "is_dir_ref s r = (case deref s r of Some (Dir _ _ _ _) \<Rightarrow> True | _ \<Rightarrow> False)"

definition segs_parts :: "string list \<Rightarrow> anchor \<times> string list" where
  "segs_parts ps =
     (if hd ps = ''C:'' then (FromRoot, nonempty (tl ps))
      else if hd ps = ''..'' then (FromParent, nonempty (skip_dot (tl ps)))
      else (FromCurrent, nonempty (skip_dot ps)))"

text \<open>The entry a directory holds under a name: \<^verbatim>\<open>parent["content"].get(name)\<close>.\<close>

definition child_at :: "'t fs \<Rightarrow> loc option \<Rightarrow> string \<Rightarrow> 't node option" where
  "child_at s r name =
     (case deref s r of Some (Dir _ _ _ content) \<Rightarrow> map_of content name | _ \<Rightarrow> None)"

section \<open>Resolution: the state, the nesting of calls\<close>

lemma traverse_no_create: "traverse env False parts c s = (r, s') \<Longrightarrow> s' = s"
proof (induction parts arbitrary: c)
  case Nil
  then show ?case by simp
next
  case (Cons part rest)
  then show ?case
    by (auto split: if_splits option.splits node.splits)
qed

lemma traverse_no_create_snd: "snd (traverse env False parts c s) = s"
  using traverse_no_create [of env parts c s] by (cases "traverse env False parts c s") simp

lemma get_node_at_path_d_no_create:
  "get_node_at_path_d d env s path False = (r, s') \<Longrightarrow> s' = s"
proof (induction d arbitrary: path r s')
  case 0
  then show ?case by simp
next
  case (Suc d)
  show ?case
  proof (cases "path = [] \<or> path = ''C:'' \<or> path = ''C:'' @ [bs]")
    case True
    with Suc.prems show ?thesis by auto
  next
    case False
    note triv = this
    show ?thesis
    proof (cases "parse_path path")
      case Nil
      with Suc.prems triv show ?thesis by auto
    next
      case (Cons p0 ps)
      obtain rc sc where c: "get_node_at_path_d d env s (join [bs] (current_path s)) False = (rc, sc)"
        by (cases "get_node_at_path_d d env s (join [bs] (current_path s)) False")
      then have sc: "sc = s" using Suc.IH by blast
      obtain rp sp where p: "get_node_at_path_d d env s (join [bs] (butlast (current_path s))) False = (rp, sp)"
        by (cases "get_node_at_path_d d env s (join [bs] (butlast (current_path s))) False")
      then have sp: "sp = s" using Suc.IH by blast
      from Suc.prems triv Cons c p sc sp show ?thesis
        by (auto simp del: traverse.simps split: if_splits sum.splits prod.splits dest: traverse_no_create)
    qed
  qed
qed

lemma get_node_at_path_d_no_create_eq:
  "get_node_at_path_d d env s path False = (fst (get_node_at_path_d d env s path False), s)"
  using get_node_at_path_d_no_create [of d env s path]
  by (cases "get_node_at_path_d d env s path False") simp

text \<open>One unfolding of the method, the nested calls reduced to their results.\<close>

lemma get_node_at_path_d_Suc:
  "get_node_at_path_d (Suc d) env s path cd =
     (if path = [] \<or> path = ''C:'' \<or> path = ''C:'' @ [bs] then (Inr (Some []), s)
      else
        (case parse_path path of
           [] \<Rightarrow> (Inr (Some []), s)
         | p0 # ps \<Rightarrow>
             if p0 = ''C:'' then traverse env cd ps (Some []) s
             else
               (case fst (get_node_at_path_d d env s (join [bs] (current_path s)) False) of
                  Inl e \<Rightarrow> (Inl e, s)
                | Inr current \<Rightarrow>
                    if p0 = ''..'' then
                      (if length (current_path s) > 1 then
                         (case fst (get_node_at_path_d d env s (join [bs] (butlast (current_path s))) False) of
                            Inl e \<Rightarrow> (Inl e, s)
                          | Inr parent \<Rightarrow> traverse env cd (skip_dot ps) parent s)
                       else traverse env cd (skip_dot ps) (Some []) s)
                    else traverse env cd (skip_dot (p0 # ps)) current s)))"
proof -
  have c: "get_node_at_path_d d env s (join [bs] (current_path s)) False =
             (fst (get_node_at_path_d d env s (join [bs] (current_path s)) False), s)"
    by (rule get_node_at_path_d_no_create_eq)
  have p: "get_node_at_path_d d env s (join [bs] (butlast (current_path s))) False =
             (fst (get_node_at_path_d d env s (join [bs] (butlast (current_path s))) False), s)"
    by (rule get_node_at_path_d_no_create_eq)
  show ?thesis
    apply (simp only: get_node_at_path_d.simps)
    apply (subst c)
    apply (simp only: prod.case)
    apply (cases "fst (get_node_at_path_d d env s (join [bs] (current_path s)) False)")
     apply (simp split: list.splits)
    apply (simp only: sum.case)
    apply (subst p)
    apply (cases "fst (get_node_at_path_d d env s (join [bs] (butlast (current_path s))) False)")
     apply (simp split: list.splits)
    apply (simp split: list.splits)
    done
qed


lemma g_rooted:
  "is_rooted path \<Longrightarrow> get_node_at_path_d (Suc d) env s path cd = rooted_ref env s path cd"
  by (auto simp add: get_node_at_path_d_Suc is_rooted_def rooted_ref_def simp del: get_node_at_path_d.simps split: list.splits)

lemma g_unrooted:
  "\<not> is_rooted path \<Longrightarrow>
   get_node_at_path_d (Suc d) env s path cd =
     (case fst (get_node_at_path_d d env s (join [bs] (current_path s)) False) of
        Inl e \<Rightarrow> (Inl e, s)
      | Inr current \<Rightarrow>
          if hd (parse_path path) = ''..'' then
            (if length (current_path s) > 1 then
               (case fst (get_node_at_path_d d env s (join [bs] (butlast (current_path s))) False) of
                  Inl e \<Rightarrow> (Inl e, s)
                | Inr parent \<Rightarrow> traverse env cd (skip_dot (tl (parse_path path))) parent s)
             else traverse env cd (skip_dot (tl (parse_path path))) (Some []) s)
          else traverse env cd (skip_dot (parse_path path)) current s)"
  by (auto simp add: get_node_at_path_d_Suc is_rooted_def simp del: get_node_at_path_d.simps traverse.simps split: list.splits sum.splits)

lemma cur_unrooted:
  "\<not> is_rooted (join [bs] (current_path s)) \<Longrightarrow>
   fst (get_node_at_path_d d env s (join [bs] (current_path s)) False) = Inl RecursionError"
proof (induction d)
  case 0
  show ?case by simp
next
  case (Suc d)
  then show ?case by (simp add: g_unrooted del: get_node_at_path_d.simps)
qed

lemma cur_stable:
  "fst (get_node_at_path_d (Suc d) env s (join [bs] (current_path s)) False) = cur_ref env s"
proof (cases "is_rooted (join [bs] (current_path s))")
  case True
  then show ?thesis by (simp add: cur_ref_def g_rooted del: get_node_at_path_d.simps)
next
  case False
  then show ?thesis by (simp add: cur_ref_def cur_unrooted del: get_node_at_path_d.simps)
qed

lemma cur_ref_eq:
  "cur_ref env s =
     (if is_rooted (join [bs] (current_path s))
      then fst (rooted_ref env s (join [bs] (current_path s)) False)
      else Inl RecursionError)"
  by (simp add: cur_ref_def g_rooted cur_unrooted del: get_node_at_path_d.simps)

lemma parent_stable:
  "fst (get_node_at_path_d (Suc (Suc d)) env s (join [bs] (butlast (current_path s))) False) = parent_ref env s"
proof (cases "is_rooted (join [bs] (butlast (current_path s)))")
  case True
  then show ?thesis by (simp add: parent_ref_def g_rooted del: get_node_at_path_d.simps)
next
  case False
  note unrooted = this
  have one: "fst (get_node_at_path_d (Suc 0) env s (join [bs] (butlast (current_path s))) False) = Inl RecursionError"
    using unrooted by (simp add: g_unrooted del: get_node_at_path_d.simps(2))
  show ?thesis
  proof (induction d)
    case 0
    show ?case by (simp add: parent_ref_def)
  next
    case (Suc d)
    have two: "get_node_at_path_d (Suc (Suc 0)) env s (join [bs] (butlast (current_path s))) False =
        (case cur_ref env s of
        Inl e \<Rightarrow> (Inl e, s)
      | Inr current \<Rightarrow>
          if hd (parse_path (join [bs] (butlast (current_path s)))) = ''..'' then
            (if length (current_path s) > 1 then (Inl RecursionError, s)
             else traverse env False (skip_dot (tl (parse_path (join [bs] (butlast (current_path s)))))) (Some []) s)
          else traverse env False (skip_dot (parse_path (join [bs] (butlast (current_path s))))) current s)"
      using unrooted
      by (simp add: g_unrooted [where d = "Suc 0"] cur_stable one del: get_node_at_path_d.simps traverse.simps split: sum.splits)
    have "get_node_at_path_d (Suc (Suc (Suc d))) env s (join [bs] (butlast (current_path s))) False =
        (case cur_ref env s of
        Inl e \<Rightarrow> (Inl e, s)
      | Inr current \<Rightarrow>
          if hd (parse_path (join [bs] (butlast (current_path s)))) = ''..'' then
            (if length (current_path s) > 1 then
               (case parent_ref env s of
                  Inl e \<Rightarrow> (Inl e, s)
                | Inr parent \<Rightarrow> traverse env False (skip_dot (tl (parse_path (join [bs] (butlast (current_path s)))))) parent s)
             else traverse env False (skip_dot (tl (parse_path (join [bs] (butlast (current_path s)))))) (Some []) s)
          else traverse env False (skip_dot (parse_path (join [bs] (butlast (current_path s))))) current s)"
      using unrooted
      by (simp add: g_unrooted [where d = "Suc (Suc d)"] cur_stable Suc.IH del: get_node_at_path_d.simps traverse.simps split: sum.splits)
    also have "\<dots> = get_node_at_path_d (Suc (Suc 0)) env s (join [bs] (butlast (current_path s))) False"
      unfolding two
      by (auto simp add: parent_ref_def two simp del: get_node_at_path_d.simps traverse.simps split: sum.splits)
    finally show ?case by (simp add: parent_ref_def del: get_node_at_path_d.simps)
  qed
qed

lemma get_node_at_path_d_stable:
  "get_node_at_path_d (Suc (Suc (Suc d))) env s path cd = get_node_at_path env s path cd"
proof (cases "is_rooted path")
  case True
  then show ?thesis by (simp add: get_node_at_path_def g_rooted del: get_node_at_path_d.simps)
next
  case False
  then show ?thesis
    by (simp add: get_node_at_path_def g_unrooted cur_stable parent_stable del: get_node_at_path_d.simps traverse.simps split: sum.splits)
qed

lemma get_node_at_path_eq:
  "get_node_at_path env s path cd =
     (if is_rooted path then rooted_ref env s path cd
      else
        (case cur_ref env s of
           Inl e \<Rightarrow> (Inl e, s)
         | Inr current \<Rightarrow>
             if hd (parse_path path) = ''..'' then
               (if length (current_path s) > 1 then
                  (case parent_ref env s of
                     Inl e \<Rightarrow> (Inl e, s)
                   | Inr parent \<Rightarrow> traverse env cd (skip_dot (tl (parse_path path))) parent s)
                else traverse env cd (skip_dot (tl (parse_path path))) (Some []) s)
             else traverse env cd (skip_dot (parse_path path)) current s))"
proof (cases "is_rooted path")
  case True
  then show ?thesis by (simp add: get_node_at_path_def g_rooted del: get_node_at_path_d.simps)
next
  case False
  then show ?thesis
    by (simp add: get_node_at_path_def g_unrooted cur_stable parent_stable del: get_node_at_path_d.simps traverse.simps split: sum.splits)
qed

lemma get_node_at_path_no_create: "get_node_at_path env s path False = (r, s') \<Longrightarrow> s' = s"
  unfolding get_node_at_path_def by (rule get_node_at_path_d_no_create)

lemma get_current_node_eq: "get_current_node env s = (cur_ref env s, s)"
  unfolding get_current_node_def get_node_at_path_def
  using cur_stable [of "Suc (Suc 0)" env s] get_node_at_path_d_no_create_eq [of "Suc (Suc (Suc 0))" env s "join [bs] (current_path s)"]
  by (simp del: get_node_at_path_d.simps)

lemma get_node_at_path_no_create_eq:
  "get_node_at_path env s path False = (fst (get_node_at_path env s path False), s)"
  using get_node_at_path_no_create [of env s path]
  by (cases "get_node_at_path env s path False") simp

lemma addressed_SomeD:
  assumes "addressed env s path = Some (l, b, n)"
  shows "\<exists>nm cr md content.
           b = snd (os_path_split env path) \<and>
           get_node_at_path env s (or_dot (fst (os_path_split env path))) False = (Inr (Some l), s) \<and>
           get_at (root s) l = Some (Dir nm cr md content) \<and> map_of content b = Some n"
proof -
  obtain r where r: "get_node_at_path env s (or_dot (fst (os_path_split env path))) False = (r, s)"
    using get_node_at_path_no_create_eq by blast
  from assms r show ?thesis
    by (auto simp add: addressed_def split: prod.splits sum.splits option.splits node.splits)
qed

section \<open>Evaluation on concrete inputs\<close>

lemmas eval_defs = nt_env_def posix_env_def init_fs_def get_node_at_path_def parse_path_def
  normalize_seps_def upper_def upper_char_def bs_def dquote_def is_valid_filename_def invalid_chars_def
  ntpath_split_def ntpath_splitdrive_def posixpath_split_def rstrip_def find_from_def
  skip_dot_def or_dot_def deref_def time_time_def get_free_space_def
  addressed_def

text \<open>Splitting with the rest of the text split once.\<close>

lemma split_on_eval:
  "split_on sep (c # cs) =
     (if c = sep then [] # split_on sep cs
      else (case split_on sep cs of [] \<Rightarrow> [c # hd []] | x # xs \<Rightarrow> (c # x) # xs))"
  by (cases "split_on sep cs") simp_all

section \<open>Renaming an entry to its own name\<close>

text \<open>
  Claim C10. For an entry that exists under \<open>oldname\<close> in the directory its path
  addresses, \<open>rename_file\<close> with the new name \<open>oldname\<close> returns \<open>False\<close> and
  leaves the state unchanged: the parent's mapping and the entry stay as they were.
\<close>

theorem rename_to_own_name_fails:
  "addressed env s oldpath = Some (l, oldname, node) \<Longrightarrow>
   rename_file env s oldpath oldname = (Inr False, s)"
proof -
  assume a: "addressed env s oldpath = Some (l, oldname, node)"
  then obtain nm cr md content where
    h: "oldname = snd (os_path_split env oldpath)"
       "get_node_at_path env s (or_dot (fst (os_path_split env oldpath))) False = (Inr (Some l), s)"
       "get_at (root s) l = Some (Dir nm cr md content)"
       "map_of content oldname = Some node"
    using addressed_SomeD by blast
  then show ?thesis
    by (cases "os_path_split env oldpath") (auto simp add: rename_file_def)
qed

theorem rename_to_own_name_fails_witness:
  "addressed nt_env (init_fs nt_env) (''DOS'' @ [bs] @ ''README.TXT'') =
     Some ([''DOS''], ''README.TXT'', File ''README.TXT'' 4 5 177 readme_text) \<and>
   rename_file nt_env (init_fs nt_env) (''DOS'' @ [bs] @ ''README.TXT'') ''README.TXT'' =
     (Inr False, init_fs nt_env)"
proof -
  have a: "addressed nt_env (init_fs nt_env) (''DOS'' @ [bs] @ ''README.TXT'') =
     Some ([''DOS''], ''README.TXT'', File ''README.TXT'' 4 5 177 readme_text)"
    by (simp add: eval_defs)
  with rename_to_own_name_fails [OF a] show ?thesis by simp
qed

section \<open>Text: splitting, parsing, names\<close>

lemma split_on_not_Nil [simp]: "split_on sep s \<noteq> []"
  by (induction s) auto

lemma split_on_append_sep: "split_on sep (u @ sep # v) = split_on sep u @ split_on sep v"
  by (induction u) auto

lemma hd_split_on_append_sep: "hd (split_on sep (u @ sep # v)) = hd (split_on sep u)"
  by (simp add: split_on_append_sep)

lemma normalize_append [simp]: "normalize_seps (u @ v) = normalize_seps u @ normalize_seps v"
  by (simp add: normalize_seps_def)

lemma normalize_sep:
  "sep = bs \<or> sep = CHR ''/'' \<Longrightarrow> normalize_seps (sep # v) = bs # normalize_seps v"
  by (auto simp add: normalize_seps_def)

lemma normalize_Nil_iff [simp]: "normalize_seps p = [] \<longleftrightarrow> p = []"
  by (simp add: normalize_seps_def)

lemma parse_path_eq:
  "path \<noteq> [] \<Longrightarrow>
   parse_path path = drive_segment (hd (split_on bs (normalize_seps path))) # tl (split_on bs (normalize_seps path))"
  by (cases "split_on bs (normalize_seps path)") (auto simp add: parse_path_def drive_segment_def Let_def)

lemma parse_path_Nil_iff [simp]: "parse_path path = [] \<longleftrightarrow> path = []"
  by (cases "path = []") (simp_all add: parse_path_eq, simp add: parse_path_def)

lemma parse_path_append_sep:
  assumes "a \<noteq> []" and "sep = bs \<or> sep = CHR ''/''"
  shows "parse_path (a @ sep # x) = parse_path a @ split_on bs (normalize_seps x)"
proof -
  have n: "normalize_seps (a @ sep # x) = normalize_seps a @ bs # normalize_seps x"
    using assms(2) by (simp add: normalize_sep)
  have "split_on bs (normalize_seps (a @ sep # x)) = split_on bs (normalize_seps a) @ split_on bs (normalize_seps x)"
    unfolding n by (simp only: split_on_append_sep)
  then show ?thesis
    using assms(1) by (simp add: parse_path_eq)
qed

lemma join_snoc: "xs \<noteq> [] \<Longrightarrow> join sep (xs @ [x]) = join sep xs @ sep @ x"
  by (induction sep xs rule: join.induct) auto

lemma bs_in_invalid: "bs \<in> set invalid_chars" "CHR ''/'' \<in> set invalid_chars" "CHR '':'' \<in> set invalid_chars"
  by (simp_all add: invalid_chars_def)

lemma split_on_no_sep: "sep \<notin> set s \<Longrightarrow> split_on sep s = [s]"
  by (induction s) auto

lemma valid_name_chars:
  assumes "is_valid_filename b"
  shows "b \<noteq> []" "b \<noteq> ''.''" "b \<noteq> ''..''" "bs \<notin> set b" "CHR ''/'' \<notin> set b" "CHR '':'' \<notin> set b"
  using assms bs_in_invalid
  by (auto simp add: is_valid_filename_def list_ex_iff split: if_splits)

lemma normalize_no_slash: "CHR ''/'' \<notin> set b \<Longrightarrow> normalize_seps b = b"
  by (induction b) (auto simp add: normalize_seps_def)

lemma parse_path_valid_name:
  assumes "is_valid_filename b"
  shows "parse_path b = [b]"
  using valid_name_chars [OF assms]
  by (simp add: parse_path_eq normalize_no_slash split_on_no_sep drive_segment_def)

lemma valid_name_not_drive:
  assumes "is_valid_filename b"
  shows "take 2 b \<noteq> ''C:''" "b \<noteq> ''C:''" "b \<noteq> ''C:'' @ [bs]"
proof -
  have c: "CHR '':'' \<notin> set b" using valid_name_chars [OF assms] by simp
  show "take 2 b \<noteq> ''C:''"
  proof
    assume "take 2 b = ''C:''"
    then have "CHR '':'' \<in> set (take 2 b)" by simp
    then show False using c by (meson in_set_takeD)
  qed
  show "b \<noteq> ''C:''" using c by auto
  show "b \<noteq> ''C:'' @ [bs]" using c by auto
qed

lemma upper_drive [simp]: "upper ''C:'' = ''C:''"
  by (simp add: upper_def upper_char_def)

lemma drive_segment_C [simp]: "drive_segment ''C:'' = ''C:''"
  by (simp add: drive_segment_def)

lemma parse_path_drive_rooted:
  "parse_path (''C:'' @ bs # x) = ''C:'' # split_on bs (normalize_seps x)"
  using parse_path_append_sep [of "''C:''" bs x]
  by (simp add: parse_path_eq normalize_seps_def bs_def)

lemma is_rooted_parent:
  assumes "is_rooted (a @ bs # x)"
  shows "is_rooted a"
proof (cases "a = []")
  case True
  then show ?thesis by (simp add: is_rooted_def)
next
  case False
  have p: "parse_path (a @ bs # x) = parse_path a @ split_on bs (normalize_seps x)"
    using False by (simp add: parse_path_append_sep)
  have ne: "parse_path a \<noteq> []" using False by simp
  from assms consider "a @ bs # x = ''C:''" | "a @ bs # x = ''C:'' @ [bs]"
    | "hd (parse_path (a @ bs # x)) = ''C:''"
    by (auto simp add: is_rooted_def split: list.splits)
  then show ?thesis
  proof cases
    case 1
    then show ?thesis
      by (auto simp add: append_eq_Cons_conv Cons_eq_append_conv bs_def)
  next
    case 2
    then have "a = ''C:''"
      by (auto simp add: append_eq_Cons_conv Cons_eq_append_conv bs_def)
    then show ?thesis by (simp add: is_rooted_def)
  next
    case 3
    with p ne have "hd (parse_path a) = ''C:''" by simp
    with ne show ?thesis by (cases "parse_path a") (auto simp add: is_rooted_def)
  qed
qed

section \<open>Resolution without creation is a lookup\<close>

lemma get_at_append:
  "get_at n (l @ m) = (case get_at n l of None \<Rightarrow> None | Some x \<Rightarrow> get_at x m)"
  by (induction l arbitrary: n) (auto split: node.splits option.splits)

lemma get_at_prefix: "get_at n (l @ m) \<noteq> None \<Longrightarrow> get_at n l \<noteq> None"
  by (simp add: get_at_append split: option.splits)

lemma lookup_Some_iff: "lookup r l = Some l' \<longleftrightarrow> l' = l \<and> get_at r l \<noteq> None"
  by (auto simp add: lookup_def)

lemma lookup_None_iff: "lookup r l = None \<longleftrightarrow> get_at r l = None"
  by (auto simp add: lookup_def)

lemma lookup_root [simp]: "lookup r [] = Some []"
  by (simp add: lookup_def)

lemma nonempty_simps [simp]:
  "nonempty [] = []"
  "nonempty ([] # ps) = nonempty ps"
  "p \<noteq> [] \<Longrightarrow> nonempty (p # ps) = p # nonempty ps"
  "nonempty (xs @ ys) = nonempty xs @ nonempty ys"
  by (simp_all add: nonempty_def)

lemma traverse_False_valid:
  "get_at (root s) l0 \<noteq> None \<Longrightarrow>
   traverse env False parts (Some l0) s = (Inr (lookup (root s) (l0 @ nonempty parts)), s)"
proof (induction parts arbitrary: l0)
  case Nil
  then show ?case by (simp add: lookup_def)
next
  case (Cons part rest)
  show ?case
  proof (cases "part = []")
    case True
    with Cons show ?thesis by simp
  next
    case False
    from Cons.prems obtain n where n: "get_at (root s) l0 = Some n" by auto
    show ?thesis
    proof (cases n)
      case (File nm cr md sz tx)
      with n False show ?thesis by (simp add: lookup_def get_at_append)
    next
      case (Dir nm cr md ch)
      show ?thesis
      proof (cases "map_of ch part")
        case None
        with n Dir False show ?thesis by (simp add: lookup_def get_at_append)
      next
        case (Some c)
        have v: "get_at (root s) (l0 @ [part]) \<noteq> None"
          using n Dir Some by (simp add: get_at_append)
        from Cons.IH [OF v] n Dir Some False show ?thesis by simp
      qed
    qed
  qed
qed

lemma traverse_None:
  "traverse env cd parts None s = (if nonempty parts = [] then Inr None else Inl TypeError, s)"
  by (induction parts) auto

lemma parse_path_Nil [simp]: "parse_path [] = []"
  by (simp add: parse_path_def)

lemma rooted_ref_traverse:
  "is_rooted path \<Longrightarrow> rooted_ref env s path cd = traverse env cd (tl (parse_path path)) (Some []) s"
proof -
  assume r: "is_rooted path"
  have a: "parse_path ''C:'' = [''C:'']"
    by (simp add: parse_path_eq normalize_seps_def bs_def)
  have b: "parse_path (''C:'' @ [bs]) = [''C:'', []]"
    using parse_path_drive_rooted [of "[]"] by (simp add: normalize_seps_def)
  from r show ?thesis
    using a b by (auto simp add: rooted_ref_def is_rooted_def split: list.splits)
qed

lemma get_node_at_path_anchor:
  "get_node_at_path env s path cd =
     (case anchor_ref env s (anchor_of path) of
        Inl e \<Rightarrow> (Inl e, s)
      | Inr c \<Rightarrow> traverse env cd (walk_parts path) c s)"
  by (simp add: get_node_at_path_eq anchor_ref_def anchor_of_def walk_parts_def rooted_ref_traverse
      del: traverse.simps split: sum.splits)

lemma cur_ref_lookup:
  "cur_ref env s =
     (if is_rooted (join [bs] (current_path s))
      then Inr (lookup (root s) (nonempty (tl (parse_path (join [bs] (current_path s))))))
      else Inl RecursionError)"
  using traverse_False_valid [of s "[]" env]
  by (simp add: cur_ref_eq rooted_ref_traverse del: traverse.simps)

lemma is_rooted_butlast:
  assumes "is_rooted (join [bs] cp)" and "length cp > 1"
  shows "is_rooted (join [bs] (butlast cp))"
proof -
  from assms(2) have ne: "butlast cp \<noteq> []" by (cases cp) auto
  from assms(2) have "cp = butlast cp @ [last cp]" by (cases cp) auto
  then have "join [bs] cp = join [bs] (butlast cp) @ bs # last cp"
    using join_snoc [OF ne, of "[bs]" "last cp"] by simp
  with assms(1) show ?thesis using is_rooted_parent by metis
qed

lemma parent_ref_lookup:
  assumes "is_rooted (join [bs] (current_path s))" and "length (current_path s) > 1"
  shows "parent_ref env s =
           Inr (lookup (root s) (nonempty (tl (parse_path (join [bs] (butlast (current_path s)))))))"
proof -
  have r: "is_rooted (join [bs] (butlast (current_path s)))"
    using assms by (rule is_rooted_butlast)
  show ?thesis
    using traverse_False_valid [of s "[]" env]
    by (simp add: parent_ref_def g_rooted [OF r] rooted_ref_traverse [OF r]
        del: traverse.simps get_node_at_path_d.simps)
qed

lemma anchor_ref_cases:
  obtains e where "anchor_ref env s a = Inl e"
  | "anchor_ref env s a = Inr None"
  | la where "anchor_ref env s a = Inr (Some la)" and "get_at (root s) la \<noteq> None"
proof (cases "anchor_ref env s a")
  case (Inl e)
  then show ?thesis using that(1) by blast
next
  case (Inr c)
  show ?thesis
  proof (cases c)
    case None
    with Inr show ?thesis using that(2) by blast
  next
    case (Some la)
    have "get_at (root s) la \<noteq> None"
    proof (cases a)
      case FromRoot
      with Inr Some show ?thesis by (simp add: anchor_ref_def)
    next
      case FromCurrent
      with Inr Some show ?thesis
        by (auto simp add: anchor_ref_def cur_ref_lookup lookup_def split: if_splits)
    next
      case FromParent
      show ?thesis
      proof (cases "is_rooted (join [bs] (current_path s))")
        case True
        show ?thesis
        proof (cases "length (current_path s) > 1")
          case True
          with \<open>is_rooted (join [bs] (current_path s))\<close> Inr Some FromParent show ?thesis
            by (auto simp add: anchor_ref_def cur_ref_lookup parent_ref_lookup lookup_def split: if_splits)
        next
          case False
          with True Inr Some FromParent show ?thesis
            by (auto simp add: anchor_ref_def cur_ref_lookup split: if_splits)
        qed
      next
        case False
        with Inr Some FromParent show ?thesis
          by (simp add: anchor_ref_def cur_ref_lookup)
      qed
    qed
    with Inr Some show ?thesis using that(3) by blast
  qed
qed

text \<open>Resolution without creation: the anchor, then the existence of the location.\<close>

lemma resolve_eq:
  "get_node_at_path env s path False =
     (case anchor_ref env s (anchor_of path) of
        Inl e \<Rightarrow> Inl e
      | Inr None \<Rightarrow> if nonempty (walk_parts path) = [] then Inr None else Inl TypeError
      | Inr (Some la) \<Rightarrow> Inr (lookup (root s) (la @ nonempty (walk_parts path))), s)"
proof (cases rule: anchor_ref_cases [of env s "anchor_of path"])
  case (1 e)
  then show ?thesis by (simp add: get_node_at_path_anchor)
next
  case 2
  then show ?thesis by (simp add: get_node_at_path_anchor traverse_None)
next
  case (3 la)
  then show ?thesis by (simp add: get_node_at_path_anchor traverse_False_valid del: traverse.simps)
qed

section \<open>The tree under an update\<close>

lemma map_of_map_entry:
  "map_of (map_entry k g ch) j = (if j = k then map_option g (map_of ch k) else map_of ch j)"
  by (induction k g ch rule: map_entry.induct) auto

lemma get_at_File [simp]: "get_at (File nm cr md sz tx) m = (if m = [] then Some (File nm cr md sz tx) else None)"
  by (cases m) auto

lemma get_at_update_at:
  "get_at (update_at r l f) m =
     (if take (length l) m = l then
        (case get_at r l of None \<Rightarrow> None | Some n \<Rightarrow> get_at (f n) (drop (length l) m))
      else if take (length m) l = m then
        map_option (\<lambda>x. update_at x (drop (length m) l) f) (get_at r m)
      else get_at r m)"
proof (induction l arbitrary: r m)
  case Nil
  then show ?case by simp
next
  case (Cons k0 l')
  show ?case
  proof (cases r)
    case (File nm cr md sz tx)
    then show ?thesis by (cases m) auto
  next
    case (Dir nm cr md ch)
    show ?thesis
    proof (cases m)
      case Nil
      with Dir show ?thesis by simp
    next
      case (Cons j m')
      show ?thesis
      proof (cases "j = k0")
        case False
        with Dir Cons show ?thesis by (simp add: map_of_map_entry)
      next
        case True
        show ?thesis
        proof (cases "map_of ch k0")
          case None
          with Dir Cons True show ?thesis by (simp add: map_of_map_entry)
        next
          case (Some c)
          with Dir Cons True Cons.IH [of c m'] show ?thesis
            by (auto simp add: map_of_map_entry split: option.splits)
        qed
      qed
    qed
  qed
qed

lemma get_at_update_at_ext:
  "get_at r l = Some n \<Longrightarrow> get_at (update_at r l f) (l @ k) = get_at (f n) k"
  by (simp add: get_at_update_at)

lemma get_at_update_at_same:
  "get_at r l = Some n \<Longrightarrow> get_at (update_at r l f) l = Some (f n)"
  using get_at_update_at_ext [of r l n f "[]"] by simp

lemma sum_map_entry:
  "map_of ch k = Some c \<Longrightarrow>
   sum_list (map (\<lambda>kc. h (snd kc)) (map_entry k g ch)) =
     sum_list (map (\<lambda>kc. h (snd kc)) ch) - h c + (h (g c) :: int)"
  by (induction k g ch rule: map_entry.induct) (auto split: if_splits)

lemma map_entry_absent: "map_of ch k = None \<Longrightarrow> map_entry k g ch = ch"
  by (induction k g ch rule: map_entry.induct) (auto split: if_splits)

lemma update_at_absent: "get_at r l = None \<Longrightarrow> update_at r l f = r"
proof (induction l arbitrary: r)
  case Nil
  then show ?case by simp
next
  case (Cons k l')
  show ?case
  proof (cases r)
    case (File nm cr md sz tx)
    then show ?thesis by simp
  next
    case (Dir nm cr md ch)
    show ?thesis
    proof (cases "map_of ch k")
      case None
      with Dir show ?thesis by (simp add: map_entry_absent)
    next
      case (Some c)
      with Dir Cons.prems have "get_at c l' = None" by simp
      then have "update_at c l' f = c" by (rule Cons.IH)
      moreover have "map_entry k (\<lambda>c. c) ch = ch"
        by (induction ch) auto
      moreover have "map_entry k (\<lambda>c. update_at c l' f) ch = map_entry k (\<lambda>c. c) ch"
        using Some \<open>update_at c l' f = c\<close>
        by (induction ch) (auto split: if_splits)
      ultimately show ?thesis using Dir by simp
    qed
  qed
qed

lemma calculate_used_space_update_at:
  "get_at r l = Some n \<Longrightarrow>
   calculate_used_space (update_at r l f) =
     calculate_used_space r - calculate_used_space n + calculate_used_space (f n)"
proof (induction l arbitrary: r)
  case Nil
  then show ?case by simp
next
  case (Cons k l')
  show ?case
  proof (cases r)
    case (File nm cr md sz tx)
    with Cons.prems show ?thesis by simp
  next
    case (Dir nm cr md ch)
    with Cons.prems obtain c where c: "map_of ch k = Some c" "get_at c l' = Some n"
      by (auto split: option.splits)
    have "calculate_used_space (update_at c l' f) =
            calculate_used_space c - calculate_used_space n + calculate_used_space (f n)"
      using c(2) by (rule Cons.IH)
    with Dir c(1) sum_map_entry [of ch k c calculate_used_space "\<lambda>c. update_at c l' f"]
    show ?thesis by simp
  qed
qed

lemma sum_alist_update:
  "sum_list (map (\<lambda>kc. h (snd kc)) (AList.update k v ch)) =
     sum_list (map (\<lambda>kc. h (snd kc)) ch)
       - (case map_of ch k of None \<Rightarrow> 0 | Some old \<Rightarrow> h old) + (h v :: int)"
  by (induction ch) (auto split: option.splits)

lemma sum_alist_delete_absent:
  "map_of ch k = None \<Longrightarrow> AList.delete k ch = ch"
  by (induction ch) (auto simp add: AList.delete_eq split: if_splits)

section \<open>Synthesizing one directory\<close>

lemma same_entry_refl [simp]: "same_entry n n"
  by (cases n) (simp_all add: same_entry_def)

lemma same_entry_trans: "same_entry a b \<Longrightarrow> same_entry b c \<Longrightarrow> same_entry a c"
  by (cases a; cases b) (auto simp add: same_entry_def)

lemma same_entry_update_at: "k \<noteq> [] \<Longrightarrow> same_entry n (update_at n k f)"
  by (cases k; cases n) (simp_all add: same_entry_def)

lemma mk_dir_fields [simp]:
  "root (mk_dir env s l part) =
     update_at (root s) l (set_child part (Dir part (clock env (ticks s)) (clock env (Suc (ticks s))) []))"
  "current_path (mk_dir env s l part) = current_path s"
  "total_space (mk_dir env s l part) = total_space s"
  "used_space (mk_dir env s l part) = used_space s"
  "ticks (mk_dir env s l part) = Suc (Suc (ticks s))"
  by (simp_all add: mk_dir_def time_time_def)

lemma traverse_step:
  assumes "part \<noteq> []" and "get_at (root s) l = Some (Dir nm cr md ch)"
  shows "traverse env cd (part # rest) (Some l) s =
           (case map_of ch part of
              Some _ \<Rightarrow> traverse env cd rest (Some (l @ [part])) s
            | None \<Rightarrow>
                if cd \<and> rest \<noteq> [] then traverse env cd rest (Some (l @ [part])) (mk_dir env s l part)
                else (Inr None, s))"
  using assms by (simp add: mk_dir_def split: prod.splits option.splits)

lemma traverse_step_File:
  assumes "part \<noteq> []" and "get_at (root s) l = Some (File nm cr md sz tx)"
  shows "traverse env cd (part # rest) (Some l) s = (Inr None, s)"
  using assms by simp

lemma traverse_skip: "traverse env cd ([] # rest) c s = traverse env cd rest c s"
  by simp

text \<open>The tree after one directory has been synthesized.\<close>

lemma mk_dir_new:
  assumes "get_at (root s) l = Some (Dir nm cr md ch)"
  shows "get_at (root (mk_dir env s l part)) (l @ [part]) =
           Some (Dir part (clock env (ticks s)) (clock env (Suc (ticks s))) [])"
  using assms by (simp add: get_at_update_at_ext update_conv')

lemma mk_dir_old:
  assumes "get_at (root s) l = Some (Dir nm cr md ch)" and "map_of ch part = None"
    and "get_at (root s) x = Some n"
  shows "\<exists>n'. get_at (root (mk_dir env s l part)) x = Some n' \<and> same_entry n n'"
proof (cases "take (length l) x = l")
  case True
  then obtain k where x: "x = l @ k" by (metis append_take_drop_id)
  show ?thesis
  proof (cases k)
    case Nil
    with x assms show ?thesis
      by (auto simp add: get_at_update_at_same same_entry_def)
  next
    case (Cons k0 k')
    from assms(3) x Cons assms(1) obtain c where c: "map_of ch k0 = Some c" "get_at c k' = Some n"
      by (auto simp add: get_at_append split: option.splits)
    with assms(2) have "k0 \<noteq> part" by auto
    with x Cons assms(1) c show ?thesis
      by (simp add: get_at_update_at_ext update_conv')
  qed
next
  case False
  note nopre = this
  show ?thesis
  proof (cases "take (length x) l = x")
    case True
    then have "drop (length x) l \<noteq> []"
      using nopre by (metis append_Nil2 append_take_drop_id take_all_iff linorder_le_cases)
    with True nopre assms(3) show ?thesis
      by (simp add: get_at_update_at same_entry_update_at)
  next
    case False
    with nopre assms(3) show ?thesis by (simp add: get_at_update_at)
  qed
qed

lemma mk_dir_fresh:
  assumes "get_at (root s) l = Some (Dir nm cr md ch)" and "map_of ch part = None"
    and "get_at (root s) x = None" and "get_at (root (mk_dir env s l part)) x = Some n"
  shows "x = l @ [part] \<and> n = Dir part (clock env (ticks s)) (clock env (Suc (ticks s))) []"
proof (cases "take (length l) x = l")
  case True
  then obtain k where x: "x = l @ k" by (metis append_take_drop_id)
  show ?thesis
  proof (cases k)
    case Nil
    with x assms show ?thesis by simp
  next
    case (Cons k0 k')
    show ?thesis
    proof (cases "k0 = part")
      case True
      with x Cons assms(1) assms(4) show ?thesis
        by (cases k') (simp_all add: get_at_update_at_ext update_conv')
    next
      case False
      have a: "get_at (root s) x = get_at (Dir nm cr md ch) (k0 # k')"
        using x Cons assms(1) by (simp add: get_at_append)
      have b: "get_at (root (mk_dir env s l part)) x = get_at (Dir nm cr md ch) (k0 # k')"
        using x Cons assms(1) False by (simp add: get_at_update_at_ext update_conv')
      from a b assms(3) assms(4) show ?thesis by simp
    qed
  qed
next
  case False
  with assms(3) assms(4) show ?thesis
    by (auto simp add: get_at_update_at split: if_splits)
qed

lemma mk_dir_used_space:
  assumes "get_at (root s) l = Some (Dir nm cr md ch)" and "map_of ch part = None"
  shows "calculate_used_space (root (mk_dir env s l part)) = calculate_used_space (root s)"
  using assms by (simp add: calculate_used_space_update_at sum_alist_update)

section \<open>Resolution that creates directories\<close>

lemma grows_refl: "grows cd names s s"
  by (auto simp add: grows_def)

lemma grows_trans:
  assumes "grows cd A s s1" and "grows cd B s1 s2" and "A \<subseteq> C" and "B \<subseteq> C"
  shows "grows cd C s s2"
  unfolding grows_def
proof (intro conjI allI impI)
  fix m n
  assume "get_at (root s) m = Some n"
  then obtain n1 where n1: "get_at (root s1) m = Some n1" "same_entry n n1"
    using assms(1) unfolding grows_def by blast
  then obtain n2 where n2: "get_at (root s2) m = Some n2" "same_entry n1 n2"
    using assms(2) unfolding grows_def by blast
  with n1 show "\<exists>n'. get_at (root s2) m = Some n' \<and> same_entry n n'"
    using same_entry_trans by blast
next
  fix m n
  assume a: "get_at (root s) m = None" "get_at (root s2) m = Some n"
  have "cd \<and> m \<noteq> [] \<and> last m \<noteq> [] \<and> last m \<in> C \<and> (\<exists>c md ch. n = Dir (last m) c md ch)"
  proof (cases "get_at (root s1) m")
    case None
    with a(2) assms(2) assms(4) show ?thesis unfolding grows_def by blast
  next
    case (Some n1)
    with a(1) assms(1) have f: "cd \<and> m \<noteq> [] \<and> last m \<noteq> [] \<and> last m \<in> A \<and> (\<exists>c md ch. n1 = Dir (last m) c md ch)"
      unfolding grows_def by blast
    from Some assms(2) obtain n2 where n2: "get_at (root s2) m = Some n2" "same_entry n1 n2"
      unfolding grows_def by blast
    with a(2) have "n2 = n" by simp
    with n2(2) f have "\<exists>c md ch. n = Dir (last m) c md ch"
      by (auto simp add: same_entry_def intro: exI)
         (metis)
    with f assms(3) show ?thesis by blast
  qed
  then show "cd" "m \<noteq> []" "last m \<noteq> []" "last m \<in> C" "\<exists>c md ch. n = Dir (last m) c md ch"
    by blast+
qed (use assms in \<open>auto simp add: grows_def\<close>)

lemma grows_mk_dir:
  assumes "get_at (root s) l = Some (Dir nm cr md ch)" and "map_of ch part = None"
    and "part \<noteq> []" and "cd"
  shows "grows cd {part} s (mk_dir env s l part)"
  unfolding grows_def
proof (intro conjI allI impI)
  fix m n
  assume "get_at (root s) m = Some n"
  then show "\<exists>n'. get_at (root (mk_dir env s l part)) m = Some n' \<and> same_entry n n'"
    using mk_dir_old [OF assms(1) assms(2)] by blast
next
  fix m n
  assume a: "get_at (root s) m = None" "get_at (root (mk_dir env s l part)) m = Some n"
  from mk_dir_fresh [OF assms(1) assms(2) a]
  have f: "m = l @ [part]" "n = Dir part (clock env (ticks s)) (clock env (Suc (ticks s))) []"
    by blast+
  show "cd" by (rule assms(4))
  show "m \<noteq> []" using f by simp
  show "last m \<noteq> []" using f assms(3) by simp
  show "last m \<in> {part}" using f by simp
  show "\<exists>c md ch. n = Dir (last m) c md ch" using f by simp
next
  show "calculate_used_space (root (mk_dir env s l part)) = calculate_used_space (root s)"
    using assms(1) assms(2) by (rule mk_dir_used_space)
qed simp_all

lemma traverse_grows:
  "get_at (root s) l0 \<noteq> None \<Longrightarrow> traverse env cd parts (Some l0) s = (r, s') \<Longrightarrow>
   grows cd (set (butlast parts)) s s' \<and>
   (\<exists>x. r = Inr x) \<and>
   (\<forall>l1. r = Inr (Some l1) \<longrightarrow> l1 = l0 @ nonempty parts \<and> get_at (root s') l1 \<noteq> None)"
proof (induction parts arbitrary: l0 s)
  case Nil
  then show ?case by (auto simp add: grows_refl)
next
  case (Cons part rest)
  have sub: "set (butlast rest) \<subseteq> set (butlast (part # rest))" by auto
  show ?case
  proof (cases "part = []")
    case True
    with Cons.prems have "traverse env cd rest (Some l0) s = (r, s')" by simp
    from Cons.IH [OF Cons.prems(1) this] True show ?thesis
      using grows_trans [OF grows_refl _ subset_refl sub] by auto
  next
    case False
    from Cons.prems(1) obtain n where n: "get_at (root s) l0 = Some n" by auto
    show ?thesis
    proof (cases n)
      case (File nm cr md sz tx)
      with n False Cons.prems(2) show ?thesis by (auto simp add: grows_refl)
    next
      case (Dir nm cr md ch)
      note unfold = traverse_step [OF False n [unfolded Dir], of env cd rest]
      show ?thesis
      proof (cases "map_of ch part")
        case (Some c)
        have v: "get_at (root s) (l0 @ [part]) \<noteq> None"
          using n Dir Some by (simp add: get_at_append)
        from unfold Some Cons.prems(2)
        have "traverse env cd rest (Some (l0 @ [part])) s = (r, s')" by simp
        from Cons.IH [OF v this] False show ?thesis
          using grows_trans [OF grows_refl _ subset_refl sub] by auto
      next
        case None
        show ?thesis
        proof (cases "cd \<and> rest \<noteq> []")
          case False
          with unfold None Cons.prems(2) show ?thesis by (auto simp add: grows_refl)
        next
          case True
          have v: "get_at (root (mk_dir env s l0 part)) (l0 @ [part]) \<noteq> None"
            using mk_dir_new [OF n [unfolded Dir]] by simp
          from unfold None True Cons.prems(2)
          have t: "traverse env cd rest (Some (l0 @ [part])) (mk_dir env s l0 part) = (r, s')" by simp
          have g1: "grows cd {part} s (mk_dir env s l0 part)"
            using grows_mk_dir [OF n [unfolded Dir] None \<open>part \<noteq> []\<close>] True by simp
          have p: "{part} \<subseteq> set (butlast (part # rest))" using True by simp
          from Cons.IH [OF v t] \<open>part \<noteq> []\<close> show ?thesis
            using grows_trans [OF g1 _ p sub] by auto
        qed
      qed
    qed
  qed
qed

text \<open>A location that exists is found, and nothing is synthesized on the way.\<close>

lemma traverse_existing:
  "get_at (root s) (l0 @ nonempty parts) \<noteq> None \<Longrightarrow>
   traverse env cd parts (Some l0) s = (Inr (Some (l0 @ nonempty parts)), s)"
proof (induction parts arbitrary: l0)
  case Nil
  then show ?case by simp
next
  case (Cons part rest)
  show ?case
  proof (cases "part = []")
    case True
    with Cons show ?thesis by simp
  next
    case False
    with Cons.prems have e: "get_at (root s) ((l0 @ [part]) @ nonempty rest) \<noteq> None" by simp
    then have "get_at (root s) (l0 @ [part]) \<noteq> None" by (rule get_at_prefix)
    then obtain nm cr md ch c where n: "get_at (root s) l0 = Some (Dir nm cr md ch)" "map_of ch part = Some c"
      by (auto simp add: get_at_append split: option.splits node.splits)
    from Cons.IH [OF e] traverse_step [OF False n(1), of env cd rest] n(2) False
    show ?thesis by simp
  qed
qed

text \<open>From a directory without entries, a walk that ends in a named segment finds nothing.\<close>

lemma traverse_from_empty:
  "get_at (root s) l = Some (Dir nm cr md []) \<Longrightarrow> parts \<noteq> [] \<Longrightarrow> last parts \<noteq> [] \<Longrightarrow>
   fst (traverse env cd parts (Some l) s) = Inr None"
proof (induction parts arbitrary: l s nm cr md)
  case Nil
  then show ?case by simp
next
  case (Cons part rest)
  show ?case
  proof (cases "part = []")
    case True
    with Cons.prems have "rest \<noteq> []" "last rest \<noteq> []" by (auto split: if_splits)
    from Cons.IH [OF Cons.prems(1) this] True show ?thesis by simp
  next
    case False
    note unfold = traverse_step [OF False Cons.prems(1), of env cd rest]
    show ?thesis
    proof (cases "cd \<and> rest \<noteq> []")
      case False
      with unfold show ?thesis by simp
    next
      case True
      with Cons.prems have l: "last rest \<noteq> []" by simp
      have "get_at (root (mk_dir env s l part)) (l @ [part]) =
              Some (Dir part (clock env (ticks s)) (clock env (Suc (ticks s))) [])"
        using Cons.prems(1) by (rule mk_dir_new)
      from Cons.IH [OF this _ l] True unfold show ?thesis by simp
    qed
  qed
qed

lemma traverse_success_unchanged:
  "get_at (root s) l0 \<noteq> None \<Longrightarrow> traverse env cd parts (Some l0) s = (Inr (Some l1), s') \<Longrightarrow>
   parts = [] \<or> last parts \<noteq> [] \<Longrightarrow> s' = s"
proof (induction parts arbitrary: l0)
  case Nil
  then show ?case by simp
next
  case (Cons part rest)
  show ?case
  proof (cases "part = []")
    case True
    with Cons.prems(3) have "rest = [] \<or> last rest \<noteq> []" by (cases rest) auto
    with Cons True show ?thesis by simp
  next
    case False
    from Cons.prems(1) obtain n where n: "get_at (root s) l0 = Some n" by auto
    show ?thesis
    proof (cases n)
      case (File nm cr md sz tx)
      with n False Cons.prems(2) show ?thesis by simp
    next
      case (Dir nm cr md ch)
      note unfold = traverse_step [OF False n [unfolded Dir], of env cd rest]
      have lr: "rest = [] \<or> last rest \<noteq> []" using Cons.prems(3) by (cases rest) auto
      show ?thesis
      proof (cases "map_of ch part")
        case (Some c)
        have v: "get_at (root s) (l0 @ [part]) \<noteq> None"
          using n Dir Some by (simp add: get_at_append)
        from unfold Some Cons.prems(2)
        have "traverse env cd rest (Some (l0 @ [part])) s = (Inr (Some l1), s')" by simp
        from Cons.IH [OF v this lr] show ?thesis .
      next
        case None
        show ?thesis
        proof (cases "cd \<and> rest \<noteq> []")
          case False
          with unfold None Cons.prems(2) show ?thesis by simp
        next
          case True
          with lr have l: "rest \<noteq> []" "last rest \<noteq> []" by auto
          have "get_at (root (mk_dir env s l0 part)) (l0 @ [part]) =
                  Some (Dir part (clock env (ticks s)) (clock env (Suc (ticks s))) [])"
            using n [unfolded Dir] by (rule mk_dir_new)
          from traverse_from_empty [OF this l, of env cd] unfold None True Cons.prems(2)
          show ?thesis by simp
        qed
      qed
    qed
  qed
qed

section \<open>Resolution of a whole path\<close>

lemma skip_dot_drop: "\<exists>k. skip_dot xs = drop k xs"
proof (cases "xs \<noteq> [] \<and> hd xs = ''.''")
  case True
  then have "skip_dot xs = drop 1 xs" by (simp add: skip_dot_def drop_Suc)
  then show ?thesis by blast
next
  case False
  then have "skip_dot xs = drop 0 xs" by (auto simp add: skip_dot_def)
  then show ?thesis by blast
qed

lemma walk_parts_drop: "\<exists>k. walk_parts path = drop k (parse_path path)"
proof -
  obtain k1 where k1: "skip_dot (tl (parse_path path)) = drop k1 (tl (parse_path path))"
    using skip_dot_drop by blast
  obtain k2 where k2: "skip_dot (parse_path path) = drop k2 (parse_path path)"
    using skip_dot_drop by blast
  have t: "tl (parse_path path) = drop 1 (parse_path path)" by (simp add: drop_Suc)
  have "walk_parts path = drop 1 (parse_path path) \<or>
        walk_parts path = drop (k1 + 1) (parse_path path) \<or>
        walk_parts path = drop k2 (parse_path path)"
    using k1 k2 t by (auto simp add: walk_parts_def simp del: drop_Suc)
  then show ?thesis by blast
qed

lemma walk_parts_last:
  "walk_parts path = [] \<or> last (walk_parts path) = last (parse_path path)"
proof -
  obtain k where k: "walk_parts path = drop k (parse_path path)" using walk_parts_drop by blast
  show ?thesis unfolding k by (cases "k < length (parse_path path)") (simp_all add: last_drop)
qed

lemma walk_parts_butlast: "set (butlast (walk_parts path)) \<subseteq> set (butlast (parse_path path))"
proof -
  obtain k where k: "walk_parts path = drop k (parse_path path)" using walk_parts_drop by blast
  show ?thesis unfolding k by (simp add: butlast_drop set_drop_subset)
qed

lemma grows_weaken: "grows cd A s s' \<Longrightarrow> A \<subseteq> B \<Longrightarrow> grows cd B s s'"
  using grows_trans [OF grows_refl, of cd A s s' "{}" B] by simp

lemma get_node_at_path_grows:
  assumes "get_node_at_path env s path cd = (r, s')"
  shows "grows cd (set (butlast (parse_path path))) s s'"
proof (cases rule: anchor_ref_cases [of env s "anchor_of path"])
  case (1 e)
  with assms show ?thesis by (auto simp add: get_node_at_path_anchor grows_refl)
next
  case 2
  with assms show ?thesis by (auto simp add: get_node_at_path_anchor traverse_None grows_refl)
next
  case (3 la)
  with assms have "traverse env cd (walk_parts path) (Some la) s = (r, s')"
    by (simp add: get_node_at_path_anchor)
  from traverse_grows [OF 3(2) this] show ?thesis
    using grows_weaken walk_parts_butlast by blast
qed

lemma get_node_at_path_Some:
  assumes "get_node_at_path env s path cd = (Inr (Some l), s')"
  shows "\<exists>la. anchor_ref env s (anchor_of path) = Inr (Some la) \<and> get_at (root s) la \<noteq> None \<and>
           traverse env cd (walk_parts path) (Some la) s = (Inr (Some l), s') \<and>
           l = la @ nonempty (walk_parts path) \<and> get_at (root s') l \<noteq> None"
proof (cases rule: anchor_ref_cases [of env s "anchor_of path"])
  case (1 e)
  with assms show ?thesis by (simp add: get_node_at_path_anchor)
next
  case 2
  with assms show ?thesis by (simp add: get_node_at_path_anchor traverse_None split: if_splits)
next
  case (3 la)
  with assms have t: "traverse env cd (walk_parts path) (Some la) s = (Inr (Some l), s')"
    by (simp add: get_node_at_path_anchor)
  from traverse_grows [OF 3(2) this] 3 t show ?thesis by auto
qed

lemma get_node_at_path_existing:
  assumes "get_node_at_path env s path cd = (Inr (Some l), s')" and "get_at (root s) l \<noteq> None"
  shows "s' = s"
proof -
  from get_node_at_path_Some [OF assms(1)] obtain la where
    la: "traverse env cd (walk_parts path) (Some la) s = (Inr (Some l), s')"
        "l = la @ nonempty (walk_parts path)"
    by blast
  from assms(2) la(2) have "get_at (root s) (la @ nonempty (walk_parts path)) \<noteq> None" by simp
  from traverse_existing [OF this, of env cd] la(1) show ?thesis by simp
qed

lemma get_node_at_path_final_named:
  assumes "get_node_at_path env s path cd = (Inr (Some l), s')"
    and "parse_path path \<noteq> []" and "last (parse_path path) \<noteq> []"
  shows "s' = s"
proof -
  from get_node_at_path_Some [OF assms(1)] obtain la where
    la: "get_at (root s) la \<noteq> None"
        "traverse env cd (walk_parts path) (Some la) s = (Inr (Some l), s')"
    by blast
  have "walk_parts path = [] \<or> last (walk_parts path) \<noteq> []"
    using walk_parts_last [of path] assms(3) by auto
  from traverse_success_unchanged [OF la(1) la(2) this] show ?thesis .
qed

lemma get_at_above_Dir:
  assumes "get_at r l \<noteq> None" and "k < length l"
  shows "\<exists>nm c md ch. get_at r (take k l) = Some (Dir nm c md ch)"
proof -
  have l: "l = take k l @ drop k l" by simp
  from assms(2) have d: "drop k l \<noteq> []" by simp
  from assms(1) l have e: "get_at r (take k l @ drop k l) \<noteq> None" by simp
  then obtain n where n: "get_at r (take k l) = Some n"
    using get_at_prefix by fastforce
  have "get_at r (take k l @ drop k l) = get_at n (drop k l)"
    using n by (simp only: get_at_append option.simps)
  with e have "get_at n (drop k l) \<noteq> None" by simp
  with d have "\<exists>nm c md ch. n = Dir nm c md ch"
    by (cases n; cases "drop k l") auto
  with n show ?thesis by blast
qed

lemmas op_defs = change_directory_def list_directory_def create_directory_def remove_directory_def
  read_file_def write_file_def copy_file_def delete_file_def rename_file_def resolve_path_def
  get_current_node_def pseudo_entry_def child_entry_def

section \<open>The result of a resolution, from the anchor and the named segments\<close>

lemma traverse_lookup:
  "get_at (root s) l0 \<noteq> None \<Longrightarrow> traverse env cd parts (Some l0) s = (r, s') \<Longrightarrow>
   r = Inr (lookup (root s') (l0 @ nonempty parts))"
proof (induction parts arbitrary: l0 s)
  case Nil
  then show ?case by (auto simp add: lookup_def)
next
  case (Cons part rest)
  show ?case
  proof (cases "part = []")
    case True
    with Cons.prems have "traverse env cd rest (Some l0) s = (r, s')" by simp
    from Cons.IH [OF Cons.prems(1) this] True show ?thesis by simp
  next
    case False
    from Cons.prems(1) obtain n where n: "get_at (root s) l0 = Some n" by auto
    show ?thesis
    proof (cases n)
      case (File nm cr md sz tx)
      with n False Cons.prems(2) show ?thesis
        by (auto simp add: lookup_def get_at_append)
    next
      case (Dir nm cr md ch)
      note unfold = traverse_step [OF False n [unfolded Dir], of env cd rest]
      show ?thesis
      proof (cases "map_of ch part")
        case (Some c)
        have v: "get_at (root s) (l0 @ [part]) \<noteq> None"
          using n Dir Some by (simp add: get_at_append)
        from unfold Some Cons.prems(2)
        have "traverse env cd rest (Some (l0 @ [part])) s = (r, s')" by simp
        from Cons.IH [OF v this] False show ?thesis by simp
      next
        case None
        show ?thesis
        proof (cases "cd \<and> rest \<noteq> []")
          case False
          with unfold None Cons.prems(2) n Dir \<open>part \<noteq> []\<close> show ?thesis
            by (auto simp add: lookup_def get_at_append)
        next
          case True
          have v: "get_at (root (mk_dir env s l0 part)) (l0 @ [part]) \<noteq> None"
            using mk_dir_new [OF n [unfolded Dir]] by simp
          from unfold None True Cons.prems(2)
          have t: "traverse env cd rest (Some (l0 @ [part])) (mk_dir env s l0 part) = (r, s')" by simp
          from Cons.IH [OF v t] \<open>part \<noteq> []\<close> show ?thesis by simp
        qed
      qed
    qed
  qed
qed

lemma traverse_through_file:
  "get_at (root s) (l0 @ take k (nonempty parts)) = Some (File nm c md sz tx) \<Longrightarrow>
   k < length (nonempty parts) \<Longrightarrow>
   traverse env cd parts (Some l0) s = (Inr None, s)"
proof (induction parts arbitrary: l0 k)
  case Nil
  then show ?case by simp
next
  case (Cons part rest)
  show ?case
  proof (cases "part = []")
    case True
    with Cons show ?thesis by simp
  next
    case False
    note ne = this
    show ?thesis
    proof (cases k)
      case 0
      with Cons.prems(1) have "get_at (root s) l0 = Some (File nm c md sz tx)" by simp
      from traverse_step_File [OF ne this] show ?thesis .
    next
      case (Suc k')
      with Cons.prems ne have f: "get_at (root s) ((l0 @ [part]) @ take k' (nonempty rest)) = Some (File nm c md sz tx)"
        and k': "k' < length (nonempty rest)"
        by simp_all
      from f have "get_at (root s) (l0 @ [part]) \<noteq> None"
        using get_at_prefix [of "root s" "l0 @ [part]" "take k' (nonempty rest)"] by simp
      then obtain dn dc dm ch x where n: "get_at (root s) l0 = Some (Dir dn dc dm ch)" "map_of ch part = Some x"
        by (auto simp add: get_at_append split: option.splits node.splits)
      from Cons.IH [OF f k'] traverse_step [OF ne n(1), of env cd rest] n(2)
      show ?thesis by simp
    qed
  qed
qed

lemma traverse_final_not_created:
  assumes "get_at (root s) l0 \<noteq> None" and "traverse env cd parts (Some l0) s = (r, s')"
    and "parts = [] \<or> last parts \<noteq> []"
    and "get_at (root s) (l0 @ nonempty parts) = None"
  shows "r = Inr None \<and> get_at (root s') (l0 @ nonempty parts) = None"
proof -
  from traverse_lookup [OF assms(1) assms(2)]
  have r: "r = Inr (lookup (root s') (l0 @ nonempty parts))" .
  show ?thesis
  proof (cases "get_at (root s') (l0 @ nonempty parts)")
    case None
    with r show ?thesis by (simp add: lookup_def)
  next
    case (Some n)
    with r have "r = Inr (Some (l0 @ nonempty parts))" by (simp add: lookup_def)
    with assms(2) have "traverse env cd parts (Some l0) s = (Inr (Some (l0 @ nonempty parts)), s')"
      by simp
    from traverse_success_unchanged [OF assms(1) this assms(3)] have "s' = s" .
    with Some assms(4) show ?thesis by simp
  qed
qed

lemma get_node_at_path_lookup:
  assumes "get_node_at_path env s path cd = (r, s')"
    and "anchor_ref env s (fst (segments path)) = Inr (Some la)"
  shows "r = Inr (lookup (root s') (la @ snd (segments path)))"
proof -
  from assms(2) have a: "anchor_ref env s (anchor_of path) = Inr (Some la)"
    by (simp add: segments_def)
  have la: "get_at (root s) la \<noteq> None"
    using a by (cases rule: anchor_ref_cases [of env s "anchor_of path"]) simp_all
  from assms(1) a have t: "traverse env cd (walk_parts path) (Some la) s = (r, s')"
    by (simp add: get_node_at_path_anchor)
  from traverse_lookup [OF la t] show ?thesis by (simp add: segments_def)
qed

lemma get_node_at_path_final_absent:
  assumes "get_node_at_path env s path cd = (r, s')"
    and "anchor_ref env s (fst (segments path)) = Inr (Some la)"
    and "last (parse_path path) \<noteq> []"
    and "get_at (root s) (la @ snd (segments path)) = None"
  shows "r = Inr None \<and> get_at (root s') (la @ snd (segments path)) = None"
proof -
  from assms(2) have a: "anchor_ref env s (anchor_of path) = Inr (Some la)"
    by (simp add: segments_def)
  have la: "get_at (root s) la \<noteq> None"
    using a by (cases rule: anchor_ref_cases [of env s "anchor_of path"]) simp_all
  from assms(1) a have t: "traverse env cd (walk_parts path) (Some la) s = (r, s')"
    by (simp add: get_node_at_path_anchor)
  have f: "walk_parts path = [] \<or> last (walk_parts path) \<noteq> []"
    using walk_parts_last [of path] assms(3) by auto
  from assms(4) have n: "get_at (root s) (la @ nonempty (walk_parts path)) = None"
    by (simp add: segments_def)
  from traverse_final_not_created [OF la t f n] show ?thesis by (simp add: segments_def)
qed

lemma get_node_at_path_through_file:
  assumes "get_node_at_path env s path cd = (r, s')"
    and "anchor_ref env s (fst (segments path)) = Inr (Some la)"
    and "k < length (snd (segments path))"
    and "get_at (root s) (la @ take k (snd (segments path))) = Some (File nm c md sz tx)"
  shows "r = Inr None \<and> s' = s"
proof -
  from assms(2) have a: "anchor_ref env s (anchor_of path) = Inr (Some la)"
    by (simp add: segments_def)
  from assms(1) a have t: "traverse env cd (walk_parts path) (Some la) s = (r, s')"
    by (simp add: get_node_at_path_anchor)
  from assms(3) assms(4) have
    "get_at (root s) (la @ take k (nonempty (walk_parts path))) = Some (File nm c md sz tx)"
    "k < length (nonempty (walk_parts path))"
    by (simp_all add: segments_def)
  from traverse_through_file [OF this, of env cd] t show ?thesis by simp
qed

lemma get_node_at_path_present:
  assumes "get_node_at_path env s path cd = (r, s')"
    and "anchor_ref env s (fst (segments path)) = Inr (Some la)"
    and "get_at (root s) (la @ snd (segments path)) \<noteq> None"
  shows "r = Inr (Some (la @ snd (segments path))) \<and> s' = s"
proof -
  from assms(2) have a: "anchor_ref env s (anchor_of path) = Inr (Some la)"
    by (simp add: segments_def)
  from assms(1) a have t: "traverse env cd (walk_parts path) (Some la) s = (r, s')"
    by (simp add: get_node_at_path_anchor)
  from assms(3) have "get_at (root s) (la @ nonempty (walk_parts path)) \<noteq> None"
    by (simp add: segments_def)
  from traverse_existing [OF this, of env cd] t show ?thesis by (simp add: segments_def)
qed

lemma get_node_at_path_no_anchor:
  assumes "get_node_at_path env s path cd = (r, s')"
  shows "(\<forall>e. anchor_ref env s (fst (segments path)) = Inl e \<longrightarrow> r = Inl e \<and> s' = s) \<and>
         (anchor_ref env s (fst (segments path)) = Inr None \<longrightarrow>
            r = (if snd (segments path) = [] then Inr None else Inl TypeError) \<and> s' = s)"
  using assms by (auto simp add: get_node_at_path_anchor traverse_None segments_def)


lemma traverse_created_at:
  "get_at (root s) l0 \<noteq> None \<Longrightarrow> traverse env cd parts (Some l0) s = (r, s') \<Longrightarrow>
   get_at (root s) m = None \<Longrightarrow> get_at (root s') m \<noteq> None \<Longrightarrow>
   \<exists>k. 0 < k \<and> k \<le> length (nonempty parts) \<and> m = l0 @ take k (nonempty parts) \<and>
       (parts = [] \<or> last parts \<noteq> [] \<longrightarrow> k < length (nonempty parts))"
proof (induction parts arbitrary: l0 s)
  case Nil
  then show ?case by simp
next
  case (Cons part rest)
  have lr: "part # rest = [] \<or> last (part # rest) \<noteq> [] \<Longrightarrow> rest \<noteq> [] \<Longrightarrow> rest = [] \<or> last rest \<noteq> []"
    by simp
  show ?case
  proof (cases "part = []")
    case True
    with Cons.prems have t: "traverse env cd rest (Some l0) s = (r, s')" by simp
    have rne: "rest \<noteq> []"
    proof
      assume "rest = []"
      with t Cons.prems(3) Cons.prems(4) show False by simp
    qed
    from Cons.IH [OF Cons.prems(1) t Cons.prems(3) Cons.prems(4)] True rne show ?thesis
      by auto
  next
    case False
    note ne = this
    from Cons.prems(1) obtain n where n: "get_at (root s) l0 = Some n" by auto
    show ?thesis
    proof (cases n)
      case (File nm cr md sz tx)
      with n ne Cons.prems show ?thesis by simp
    next
      case (Dir nm cr md ch)
      note unfold = traverse_step [OF ne n [unfolded Dir], of env cd rest]
      have shift: "\<And>k. 0 < k \<and> k \<le> length (nonempty rest) \<and> m = (l0 @ [part]) @ take k (nonempty rest) \<and>
                     (rest = [] \<or> last rest \<noteq> [] \<longrightarrow> k < length (nonempty rest)) \<Longrightarrow> rest \<noteq> [] \<Longrightarrow>
                  0 < Suc k \<and> Suc k \<le> length (nonempty (part # rest)) \<and>
                  m = l0 @ take (Suc k) (nonempty (part # rest)) \<and>
                  (part # rest = [] \<or> last (part # rest) \<noteq> [] \<longrightarrow> Suc k < length (nonempty (part # rest)))"
        using ne by simp
      show ?thesis
      proof (cases "map_of ch part")
        case (Some c)
        have v: "get_at (root s) (l0 @ [part]) \<noteq> None"
          using n Dir Some by (simp add: get_at_append)
        from unfold Some Cons.prems(2)
        have t: "traverse env cd rest (Some (l0 @ [part])) s = (r, s')" by simp
        have rne: "rest \<noteq> []"
        proof
          assume "rest = []"
          with t Cons.prems(3) Cons.prems(4) show False by simp
        qed
        from Cons.IH [OF v t Cons.prems(3) Cons.prems(4)] obtain k where
          "0 < k \<and> k \<le> length (nonempty rest) \<and> m = (l0 @ [part]) @ take k (nonempty rest) \<and>
             (rest = [] \<or> last rest \<noteq> [] \<longrightarrow> k < length (nonempty rest))"
          by blast
        from shift [OF this rne] show ?thesis by blast
      next
        case None
        show ?thesis
        proof (cases "cd \<and> rest \<noteq> []")
          case False
          with unfold None Cons.prems show ?thesis by auto
        next
          case True
          then have rne: "rest \<noteq> []" by simp
          let ?s1 = "mk_dir env s l0 part"
          have v: "get_at (root ?s1) (l0 @ [part]) \<noteq> None"
            using mk_dir_new [OF n [unfolded Dir]] by simp
          from unfold None True Cons.prems(2)
          have t: "traverse env cd rest (Some (l0 @ [part])) ?s1 = (r, s')" by simp
          show ?thesis
          proof (cases "get_at (root ?s1) m")
            case None
            from Cons.IH [OF v t None Cons.prems(4)] obtain k where
              "0 < k \<and> k \<le> length (nonempty rest) \<and> m = (l0 @ [part]) @ take k (nonempty rest) \<and>
                 (rest = [] \<or> last rest \<noteq> [] \<longrightarrow> k < length (nonempty rest))"
              by blast
            from shift [OF this rne] show ?thesis by blast
          next
            case (Some n1)
            from mk_dir_fresh [OF n [unfolded Dir] \<open>map_of ch part = None\<close> Cons.prems(3) Some]
            have m: "m = l0 @ [part]" by simp
            have "last (part # rest) \<noteq> [] \<longrightarrow> nonempty rest \<noteq> []"
              using rne by (auto simp add: nonempty_def filter_empty_conv)
            then have "last (part # rest) \<noteq> [] \<longrightarrow> Suc 0 < length (nonempty (part # rest))"
              using ne by (cases "nonempty rest") simp_all
            with m ne have "0 < Suc 0 \<and> Suc 0 \<le> length (nonempty (part # rest)) \<and>
                  m = l0 @ take (Suc 0) (nonempty (part # rest)) \<and>
                  (part # rest = [] \<or> last (part # rest) \<noteq> [] \<longrightarrow> Suc 0 < length (nonempty (part # rest)))"
              by simp
            then show ?thesis by blast
          qed
        qed
      qed
    qed
  qed
qed

lemma get_node_at_path_created_at:
  assumes "get_node_at_path env s path cd = (r, s')"
    and "anchor_ref env s (fst (segments path)) = Inr (Some la)"
    and "get_at (root s) m = None" and "get_at (root s') m \<noteq> None"
  shows "\<exists>k. 0 < k \<and> k \<le> length (snd (segments path)) \<and> m = la @ take k (snd (segments path)) \<and>
             (last (parse_path path) \<noteq> [] \<longrightarrow> k < length (snd (segments path)))"
proof -
  from assms(2) have a: "anchor_ref env s (anchor_of path) = Inr (Some la)"
    by (simp add: segments_def)
  have la: "get_at (root s) la \<noteq> None"
    using a by (cases rule: anchor_ref_cases [of env s "anchor_of path"]) simp_all
  from assms(1) a have t: "traverse env cd (walk_parts path) (Some la) s = (r, s')"
    by (simp add: get_node_at_path_anchor)
  have f: "last (parse_path path) \<noteq> [] \<longrightarrow> walk_parts path = [] \<or> last (walk_parts path) \<noteq> []"
    using walk_parts_last [of path] by auto
  from traverse_created_at [OF la t assms(3) assms(4)] f show ?thesis
    by (auto simp add: segments_def)
qed

section \<open>What resolution creates\<close>

text \<open>The anchors are what the method's own calls return.\<close>

lemma anchor_ref_calls:
  "anchor_ref env s FromRoot = Inr (Some [])"
  "anchor_ref env s FromCurrent = fst (get_current_node env s)"
  "anchor_ref env s FromParent =
     (case fst (get_current_node env s) of
        Inl e \<Rightarrow> Inl e
      | Inr _ \<Rightarrow>
          if length (current_path s) > 1
          then fst (get_node_at_path env s (join [bs] (butlast (current_path s))) False)
          else Inr (Some []))"
proof -
  show "anchor_ref env s FromRoot = Inr (Some [])" by (simp add: anchor_ref_def)
  show "anchor_ref env s FromCurrent = fst (get_current_node env s)"
    by (simp add: anchor_ref_def get_current_node_eq)
  have "fst (get_node_at_path env s (join [bs] (butlast (current_path s))) False) = parent_ref env s"
    unfolding get_node_at_path_def by (rule parent_stable)
  then show "anchor_ref env s FromParent =
     (case fst (get_current_node env s) of
        Inl e \<Rightarrow> Inl e
      | Inr _ \<Rightarrow>
          if length (current_path s) > 1
          then fst (get_node_at_path env s (join [bs] (butlast (current_path s))) False)
          else Inr (Some []))"
    by (simp add: anchor_ref_def get_current_node_eq split: sum.splits)
qed

text \<open>
  Claim C3, as the code has it. \<open>segments\<close> gives what resolution walks for a path: the
  anchor (the root, the current directory or the parent of the current directory, as
  the method's own calls return them: lemma \<open>anchor_ref_calls\<close>) and the non-empty
  segments after it; empty segments are skipped. Let the anchor be the node at \<open>la\<close>
  and let \<open>ks\<close> be the non-empty segments. Then
  \<^item> the result is the location \<open>la @ ks\<close> when a node is there after the call, and
    absent otherwise; no other location is ever returned;
  \<^item> when a node is at \<open>la @ ks\<close> before the call, it is returned and the state is
    unchanged;
  \<^item> when the last parsed segment is not empty and no node is at \<open>la @ ks\<close> before the
    call, the result is absent and no node is at \<open>la @ ks\<close> after the call either: the
    final segment is never created;
  \<^item> when a file is at \<open>la\<close> followed by fewer than all of the segments, the result is
    absent and the state is unchanged;
  \<^item> every node that is in the tree after the call and was not before is a directory, at
    \<open>la\<close> followed by the first \<open>k\<close> segments for some \<open>k\<close> from one on, stored under its
    segment as name, and \<open>create_dirs\<close> was set; \<open>k\<close> is less than the number of segments
    when the last parsed segment is not empty;
  \<^item> the nodes that were in the tree stay, with their type, name and times (a file with
    its size and text), and without \<open>create_dirs\<close> the state is unchanged;
  \<^item> every node above the returned one is a directory;
  \<^item> when the anchor raises, so does the resolution, and when the anchor is absent the
    resolution is absent or raises TypeError at the first non-empty segment; the state
    is unchanged in both cases.
\<close>

theorem resolution_creates_only_intermediate:
  assumes "get_node_at_path env s path cd = (r, s')"
  shows "(\<forall>la. anchor_ref env s (fst (segments path)) = Inr (Some la) \<longrightarrow>
            r = Inr (lookup (root s') (la @ snd (segments path))) \<and>
            (get_at (root s) (la @ snd (segments path)) \<noteq> None \<longrightarrow>
               r = Inr (Some (la @ snd (segments path))) \<and> s' = s) \<and>
            (last (parse_path path) \<noteq> [] \<and> get_at (root s) (la @ snd (segments path)) = None \<longrightarrow>
               r = Inr None \<and> get_at (root s') (la @ snd (segments path)) = None) \<and>
            (\<forall>k nm c md sz tx.
               k < length (snd (segments path)) \<and>
               get_at (root s) (la @ take k (snd (segments path))) = Some (File nm c md sz tx) \<longrightarrow>
               r = Inr None \<and> s' = s) \<and>
            (\<forall>m. get_at (root s) m = None \<and> get_at (root s') m \<noteq> None \<longrightarrow>
               (\<exists>k. 0 < k \<and> k \<le> length (snd (segments path)) \<and>
                    m = la @ take k (snd (segments path)) \<and>
                    (last (parse_path path) \<noteq> [] \<longrightarrow> k < length (snd (segments path)))))) \<and>
         (\<forall>m n. get_at (root s) m = None \<and> get_at (root s') m = Some n \<longrightarrow>
              cd \<and> last m \<noteq> [] \<and> last m \<in> set (butlast (parse_path path)) \<and>
              (\<exists>c md ch. n = Dir (last m) c md ch)) \<and>
         (\<forall>m n. get_at (root s) m = Some n \<longrightarrow>
              (\<exists>n'. get_at (root s') m = Some n' \<and> same_entry n n')) \<and>
         (\<not> cd \<longrightarrow> s' = s) \<and>
         (\<forall>l. r = Inr (Some l) \<and> parse_path path \<noteq> [] \<and> last (parse_path path) \<noteq> [] \<longrightarrow>
              s' = s \<and> get_at (root s) l \<noteq> None) \<and>
         (\<forall>l k. r = Inr (Some l) \<and> k < length l \<longrightarrow>
              (\<exists>nm c md ch. get_at (root s') (take k l) = Some (Dir nm c md ch))) \<and>
         (\<forall>e. anchor_ref env s (fst (segments path)) = Inl e \<longrightarrow> r = Inl e \<and> s' = s) \<and>
         (anchor_ref env s (fst (segments path)) = Inr None \<longrightarrow>
            r = (if snd (segments path) = [] then Inr None else Inl TypeError) \<and> s' = s)"
proof -
  have 1: "\<forall>la. anchor_ref env s (fst (segments path)) = Inr (Some la) \<longrightarrow>
            r = Inr (lookup (root s') (la @ snd (segments path))) \<and>
            (get_at (root s) (la @ snd (segments path)) \<noteq> None \<longrightarrow>
               r = Inr (Some (la @ snd (segments path))) \<and> s' = s) \<and>
            (last (parse_path path) \<noteq> [] \<and> get_at (root s) (la @ snd (segments path)) = None \<longrightarrow>
               r = Inr None \<and> get_at (root s') (la @ snd (segments path)) = None) \<and>
            (\<forall>k nm c md sz tx.
               k < length (snd (segments path)) \<and>
               get_at (root s) (la @ take k (snd (segments path))) = Some (File nm c md sz tx) \<longrightarrow>
               r = Inr None \<and> s' = s) \<and>
            (\<forall>m. get_at (root s) m = None \<and> get_at (root s') m \<noteq> None \<longrightarrow>
               (\<exists>k. 0 < k \<and> k \<le> length (snd (segments path)) \<and>
                    m = la @ take k (snd (segments path)) \<and>
                    (last (parse_path path) \<noteq> [] \<longrightarrow> k < length (snd (segments path)))))"
  proof (intro allI impI)
    fix la
    assume a: "anchor_ref env s (fst (segments path)) = Inr (Some la)"
    have i: "r = Inr (lookup (root s') (la @ snd (segments path)))"
      using assms a by (rule get_node_at_path_lookup)
    have ii: "get_at (root s) (la @ snd (segments path)) \<noteq> None \<longrightarrow>
               r = Inr (Some (la @ snd (segments path))) \<and> s' = s"
      using get_node_at_path_present [OF assms a] by blast
    have iii: "last (parse_path path) \<noteq> [] \<and> get_at (root s) (la @ snd (segments path)) = None \<longrightarrow>
               r = Inr None \<and> get_at (root s') (la @ snd (segments path)) = None"
      using get_node_at_path_final_absent [OF assms a] by blast
    have iv: "\<forall>k nm c md sz tx.
               k < length (snd (segments path)) \<and>
               get_at (root s) (la @ take k (snd (segments path))) = Some (File nm c md sz tx) \<longrightarrow>
               r = Inr None \<and> s' = s"
      using get_node_at_path_through_file [OF assms a] by blast
    have v: "\<forall>m. get_at (root s) m = None \<and> get_at (root s') m \<noteq> None \<longrightarrow>
               (\<exists>k. 0 < k \<and> k \<le> length (snd (segments path)) \<and>
                    m = la @ take k (snd (segments path)) \<and>
                    (last (parse_path path) \<noteq> [] \<longrightarrow> k < length (snd (segments path))))"
      using get_node_at_path_created_at [OF assms a] by blast
    from i ii iii iv v show
      "r = Inr (lookup (root s') (la @ snd (segments path))) \<and>
            (get_at (root s) (la @ snd (segments path)) \<noteq> None \<longrightarrow>
               r = Inr (Some (la @ snd (segments path))) \<and> s' = s) \<and>
            (last (parse_path path) \<noteq> [] \<and> get_at (root s) (la @ snd (segments path)) = None \<longrightarrow>
               r = Inr None \<and> get_at (root s') (la @ snd (segments path)) = None) \<and>
            (\<forall>k nm c md sz tx.
               k < length (snd (segments path)) \<and>
               get_at (root s) (la @ take k (snd (segments path))) = Some (File nm c md sz tx) \<longrightarrow>
               r = Inr None \<and> s' = s) \<and>
            (\<forall>m. get_at (root s) m = None \<and> get_at (root s') m \<noteq> None \<longrightarrow>
               (\<exists>k. 0 < k \<and> k \<le> length (snd (segments path)) \<and>
                    m = la @ take k (snd (segments path)) \<and>
                    (last (parse_path path) \<noteq> [] \<longrightarrow> k < length (snd (segments path)))))"
      by - (intro conjI, assumption+)
  qed
  have g: "grows cd (set (butlast (parse_path path))) s s'"
    using assms by (rule get_node_at_path_grows)
  have 2: "\<forall>m n. get_at (root s) m = None \<and> get_at (root s') m = Some n \<longrightarrow>
              cd \<and> last m \<noteq> [] \<and> last m \<in> set (butlast (parse_path path)) \<and>
              (\<exists>c md ch. n = Dir (last m) c md ch)"
    using g unfolding grows_def by blast
  have 3: "\<forall>m n. get_at (root s) m = Some n \<longrightarrow>
              (\<exists>n'. get_at (root s') m = Some n' \<and> same_entry n n')"
    using g unfolding grows_def by blast
  have 4: "\<not> cd \<longrightarrow> s' = s"
    using assms get_node_at_path_no_create by auto
  have 5: "\<forall>l. r = Inr (Some l) \<and> parse_path path \<noteq> [] \<and> last (parse_path path) \<noteq> [] \<longrightarrow>
              s' = s \<and> get_at (root s) l \<noteq> None"
  proof (intro allI impI)
    fix l
    assume a: "r = Inr (Some l) \<and> parse_path path \<noteq> [] \<and> last (parse_path path) \<noteq> []"
    with assms have e: "get_node_at_path env s path cd = (Inr (Some l), s')" by simp
    from get_node_at_path_final_named [OF e] a have "s' = s" by simp
    with get_node_at_path_Some [OF e] show "s' = s \<and> get_at (root s) l \<noteq> None" by auto
  qed
  have 6: "\<forall>l k. r = Inr (Some l) \<and> k < length l \<longrightarrow>
              (\<exists>nm c md ch. get_at (root s') (take k l) = Some (Dir nm c md ch))"
  proof (intro allI impI)
    fix l k
    assume a: "r = Inr (Some l) \<and> k < length l"
    with assms have e: "get_node_at_path env s path cd = (Inr (Some l), s')" by simp
    from get_node_at_path_Some [OF e] have "get_at (root s') l \<noteq> None" by blast
    from get_at_above_Dir [OF this] a
    show "\<exists>nm c md ch. get_at (root s') (take k l) = Some (Dir nm c md ch)" by blast
  qed
  note 7 = get_node_at_path_no_anchor [OF assms, THEN conjunct1]
  note 8 = get_node_at_path_no_anchor [OF assms, THEN conjunct2]
  from 1 2 3 4 5 6 7 8 show ?thesis by - (intro conjI, assumption+)
qed

theorem resolution_creates_only_intermediate_witness:
  "anchor_ref nt_env (init_fs nt_env) FromCurrent = Inr (Some []) \<and>
   segments (''DOS'' @ [bs] @ ''NOPE'') = (FromCurrent, [''DOS'', ''NOPE'']) \<and>
   last (parse_path (''DOS'' @ [bs] @ ''NOPE'')) \<noteq> [] \<and>
   get_at (root (init_fs nt_env)) [''DOS'', ''NOPE''] = None \<and>
   fst (get_node_at_path nt_env (init_fs nt_env) (''DOS'' @ [bs] @ ''NOPE'') True) = Inr None \<and>
   get_at (root (snd (get_node_at_path nt_env (init_fs nt_env) (''DOS'' @ [bs] @ ''NOPE'') True)))
     [''DOS'', ''NOPE''] = None \<and>
   segments (''DOS'' @ [bs] @ ''README.TXT'' @ [bs] @ ''X'') =
     (FromCurrent, [''DOS'', ''README.TXT'', ''X'']) \<and>
   get_at (root (init_fs nt_env)) ([] @ take 2 [''DOS'', ''README.TXT'', ''X'']) =
     Some (File ''README.TXT'' 4 5 177 readme_text) \<and>
   get_node_at_path nt_env (init_fs nt_env)
     (''DOS'' @ [bs] @ ''README.TXT'' @ [bs] @ ''X'') True = (Inr None, init_fs nt_env) \<and>
   segments (''DOS'' @ [bs] @ ''README.TXT'') = (FromCurrent, [''DOS'', ''README.TXT'']) \<and>
   get_node_at_path nt_env (init_fs nt_env) (''DOS'' @ [bs] @ ''README.TXT'') True =
     (Inr (Some [''DOS'', ''README.TXT'']), init_fs nt_env) \<and>
   segments (''NEW'' @ [bs] @ ''SUB'' @ [bs] @ ''F'') = (FromCurrent, [''NEW'', ''SUB'', ''F'']) \<and>
   fst (get_node_at_path nt_env (init_fs nt_env) (''NEW'' @ [bs] @ ''SUB'' @ [bs] @ ''F'') True) = Inr None \<and>
   get_at (root (init_fs nt_env)) [''NEW'', ''SUB''] = None \<and>
   get_at (root (snd (get_node_at_path nt_env (init_fs nt_env) (''NEW'' @ [bs] @ ''SUB'' @ [bs] @ ''F'') True)))
     [''NEW'', ''SUB''] = Some (Dir ''SUB'' 8 9 []) \<and>
   (\<exists>k. 0 < k \<and> k < length [''NEW'', ''SUB'', ''F''] \<and> [''NEW'', ''SUB''] = [] @ take k [''NEW'', ''SUB'', ''F''])"
proof -
  let ?s0 = "init_fs nt_env"
  let ?p1 = "''DOS'' @ [bs] @ ''NOPE''"
  let ?p2 = "''DOS'' @ [bs] @ ''README.TXT'' @ [bs] @ ''X''"
  let ?p3 = "''DOS'' @ [bs] @ ''README.TXT''"
  let ?p4 = "''NEW'' @ [bs] @ ''SUB'' @ [bs] @ ''F''"
  note seg_defs = segments_def anchor_of_def walk_parts_def is_rooted_def nonempty_def
  have an: "anchor_ref nt_env ?s0 FromCurrent = Inr (Some [])"
    by (simp add: anchor_ref_def cur_ref_def eval_defs)
  have g1: "segments ?p1 = (FromCurrent, [''DOS'', ''NOPE''])"
    by (simp add: eval_defs seg_defs split_on_eval del: split_on.simps(2))
  have g2: "segments ?p2 = (FromCurrent, [''DOS'', ''README.TXT'', ''X''])"
    by (simp add: eval_defs seg_defs split_on_eval del: split_on.simps(2))
  have g3: "segments ?p3 = (FromCurrent, [''DOS'', ''README.TXT''])"
    by (simp add: eval_defs seg_defs split_on_eval del: split_on.simps(2))
  have g4: "segments ?p4 = (FromCurrent, [''NEW'', ''SUB'', ''F''])"
    by (simp add: eval_defs seg_defs split_on_eval del: split_on.simps(2))
  have l1: "last (parse_path ?p1) \<noteq> []" by (simp add: eval_defs split_on_eval del: split_on.simps(2))
  have l4: "last (parse_path ?p4) \<noteq> []" by (simp add: eval_defs split_on_eval del: split_on.simps(2))
  have a1: "get_at (root ?s0) [''DOS'', ''NOPE''] = None" by (simp add: eval_defs split_on_eval del: split_on.simps(2))
  have a2: "get_at (root ?s0) ([] @ take 2 [''DOS'', ''README.TXT'', ''X'']) =
     Some (File ''README.TXT'' 4 5 177 readme_text)"
    by (simp add: eval_defs split_on_eval del: split_on.simps(2))
  have a3: "get_at (root ?s0) [''DOS'', ''README.TXT''] \<noteq> None" by (simp add: eval_defs split_on_eval del: split_on.simps(2))
  have a4: "get_at (root ?s0) [''NEW'', ''SUB''] = None" by (simp add: eval_defs split_on_eval del: split_on.simps(2))
  have e1: "get_node_at_path nt_env ?s0 ?p1 True =
              (fst (get_node_at_path nt_env ?s0 ?p1 True), snd (get_node_at_path nt_env ?s0 ?p1 True))"
    by simp
  have e2: "get_node_at_path nt_env ?s0 ?p2 True =
              (fst (get_node_at_path nt_env ?s0 ?p2 True), snd (get_node_at_path nt_env ?s0 ?p2 True))"
    by simp
  have e3: "get_node_at_path nt_env ?s0 ?p3 True =
              (fst (get_node_at_path nt_env ?s0 ?p3 True), snd (get_node_at_path nt_env ?s0 ?p3 True))"
    by simp
  have e4: "get_node_at_path nt_env ?s0 ?p4 True =
              (fst (get_node_at_path nt_env ?s0 ?p4 True), snd (get_node_at_path nt_env ?s0 ?p4 True))"
    by simp
  have f4: "get_at (root (snd (get_node_at_path nt_env ?s0 ?p4 True))) [''NEW'', ''SUB''] =
              Some (Dir ''SUB'' 8 9 [])"
    by (simp add: eval_defs split_on_eval del: split_on.simps(2))
  have an1: "anchor_ref nt_env ?s0 (fst (segments ?p1)) = Inr (Some [])" using an g1 by simp
  have an2: "anchor_ref nt_env ?s0 (fst (segments ?p2)) = Inr (Some [])" using an g2 by simp
  have an3: "anchor_ref nt_env ?s0 (fst (segments ?p3)) = Inr (Some [])" using an g3 by simp
  have an4: "anchor_ref nt_env ?s0 (fst (segments ?p4)) = Inr (Some [])" using an g4 by simp
  note h1 = resolution_creates_only_intermediate [OF e1, THEN conjunct1, rule_format, OF an1]
  note h2 = resolution_creates_only_intermediate [OF e2, THEN conjunct1, rule_format, OF an2]
  note h3 = resolution_creates_only_intermediate [OF e3, THEN conjunct1, rule_format, OF an3]
  note h4 = resolution_creates_only_intermediate [OF e4, THEN conjunct1, rule_format, OF an4]
  from h1 [THEN conjunct2, THEN conjunct2, THEN conjunct1] g1 l1 a1
  have r1: "fst (get_node_at_path nt_env ?s0 ?p1 True) = Inr None \<and>
            get_at (root (snd (get_node_at_path nt_env ?s0 ?p1 True))) [''DOS'', ''NOPE''] = None"
    by simp
  have k2: "2 < length (snd (segments ?p2)) \<and>
            get_at (root ?s0) ([] @ take 2 (snd (segments ?p2))) = Some (File ''README.TXT'' 4 5 177 readme_text)"
    using g2 a2 by simp
  from h2 [THEN conjunct2, THEN conjunct2, THEN conjunct2, THEN conjunct1, rule_format, OF k2]
  have r2: "get_node_at_path nt_env ?s0 ?p2 True = (Inr None, ?s0)"
    using e2 by simp
  from h3 [THEN conjunct2, THEN conjunct1] g3 a3
  have "fst (get_node_at_path nt_env ?s0 ?p3 True) = Inr (Some [''DOS'', ''README.TXT'']) \<and>
        snd (get_node_at_path nt_env ?s0 ?p3 True) = ?s0"
    by simp
  then have r3: "get_node_at_path nt_env ?s0 ?p3 True = (Inr (Some [''DOS'', ''README.TXT'']), ?s0)"
    using e3 by simp
  from h4 [THEN conjunct2, THEN conjunct2, THEN conjunct1] g4 l4
  have r4a: "get_at (root ?s0) [''NEW'', ''SUB'', ''F''] = None \<longrightarrow>
             fst (get_node_at_path nt_env ?s0 ?p4 True) = Inr None"
    by simp
  have "get_at (root ?s0) [''NEW'', ''SUB'', ''F''] = None" by (simp add: eval_defs split_on_eval del: split_on.simps(2))
  with r4a have r4b: "fst (get_node_at_path nt_env ?s0 ?p4 True) = Inr None" by simp
  have k4: "get_at (root ?s0) [''NEW'', ''SUB''] = None \<and>
            get_at (root (snd (get_node_at_path nt_env ?s0 ?p4 True))) [''NEW'', ''SUB''] \<noteq> None"
    using a4 f4 by simp
  from h4 [THEN conjunct2, THEN conjunct2, THEN conjunct2, THEN conjunct2, rule_format, OF k4] g4 l4
  have r4c: "\<exists>k. 0 < k \<and> k < length [''NEW'', ''SUB'', ''F''] \<and> [''NEW'', ''SUB''] = [] @ take k [''NEW'', ''SUB'', ''F'']"
    by auto
  note r4 = conjI [OF r4b r4c]
  from an g1 l1 a1 r1 g2 a2 r2 g3 r3 g4 r4 a4 f4 show ?thesis by simp
qed

theorem resolve_final_segment_counterexample:
  "parse_path (''DOS'' @ [bs]) = [''DOS'', []] \<and>
   get_at (root (init_fs nt_env)) [''DOS''] =
     Some (Dir ''DOS'' 2 3 [(''README.TXT'', File ''README.TXT'' 4 5 177 readme_text)]) \<and>
   map_of [(''README.TXT'', File ''README.TXT'' 4 5 177 readme_text)] [] = None \<and>
   fst (resolve_path nt_env (init_fs nt_env) (''DOS'' @ [bs])) = Inr (Some [''DOS'']) \<and>
   parse_path (''NEW'' @ [bs]) = [''NEW'', []] \<and>
   get_at (root (init_fs nt_env)) [''NEW''] = None \<and>
   fst (get_node_at_path nt_env (init_fs nt_env) (''NEW'' @ [bs]) True) = Inr (Some [''NEW'']) \<and>
   get_at (root (snd (get_node_at_path nt_env (init_fs nt_env) (''NEW'' @ [bs]) True))) [''NEW''] =
     Some (Dir ''NEW'' 6 7 [])"
  by (simp add: eval_defs op_defs split_on_eval del: split_on.simps(2))

section \<open>Free space\<close>

lemma get_free_space_fst: "fst (get_free_space s) = total_space s - calculate_used_space (root s)"
  by (simp add: get_free_space_def)

lemma get_free_space_snd: "snd (get_free_space s) = s\<lparr>used_space := calculate_used_space (root s)\<rparr>"
  by (simp add: get_free_space_def)

lemma grows_free_space: "grows cd A s s1 \<Longrightarrow> fst (get_free_space s1) = fst (get_free_space s)"
  by (simp add: grows_def get_free_space_fst)

lemma calculate_used_space_set_modified [simp]:
  "calculate_used_space (set_modified t n) = calculate_used_space n"
  by (cases n) simp_all

lemma write_entry_File:
  "write_entry basename now txt old =
     File (case old of Some (File fn _ _ _ _) \<Rightarrow> fn | _ \<Rightarrow> basename)
          (case old of Some (File _ fc _ _ _) \<Rightarrow> fc | _ \<Rightarrow> now)
          now (int (length txt)) txt"
  by (cases "(basename, now, txt, old)" rule: write_entry.cases) simp_all

lemma write_file_resolved:
  assumes "os_path_split env path = (dirname, basename)" and "is_valid_filename basename"
    and "get_node_at_path env s (or_dot dirname) True = (Inr (Some l), s1)"
    and "get_at (root s1) l = Some (Dir nm cr md content)"
  shows "write_file env s path txt =
     (if fst (get_free_space s1) + existing_size content basename < int (length txt)
      then (Inl IOError, s1\<lparr>used_space := calculate_used_space (root s1)\<rparr>)
      else (Inr True,
            s1\<lparr>used_space := calculate_used_space (root s1), ticks := Suc (ticks s1),
               root := update_at
                 (update_at (root s1) l
                    (set_child basename
                       (write_entry basename (clock env (ticks s1)) txt (map_of content basename))))
                 l (set_modified (clock env (ticks s1)))\<rparr>))"
  using assms
  by (simp add: write_file_def existing_size_def get_free_space_def time_time_def)

lemma write_file_used_after:
  assumes "get_at r l = Some (Dir nm cr md content)"
  shows "calculate_used_space
           (update_at (update_at r l (set_child basename v)) l (set_modified now)) =
         calculate_used_space r
           - (case map_of content basename of None \<Rightarrow> 0 | Some o' \<Rightarrow> calculate_used_space o')
           + calculate_used_space v"
proof -
  let ?f = "set_child basename v"
  have 1: "get_at (update_at r l ?f) l = Some (?f (Dir nm cr md content))"
    using assms by (rule get_at_update_at_same)
  have 2: "calculate_used_space (update_at r l ?f) =
             calculate_used_space r - calculate_used_space (Dir nm cr md content)
               + calculate_used_space (?f (Dir nm cr md content))"
    using assms by (rule calculate_used_space_update_at)
  have 3: "calculate_used_space (?f (Dir nm cr md content)) =
             calculate_used_space (Dir nm cr md content)
               - (case map_of content basename of None \<Rightarrow> 0 | Some o' \<Rightarrow> calculate_used_space o')
               + calculate_used_space v"
    by (simp add: sum_alist_update)
  show ?thesis
    using calculate_used_space_update_at [OF 1, of "set_modified now"] 2 3 by simp
qed

section \<open>Writing against the capacity\<close>

text \<open>
  Claim C2, as the code has it. Let the file name be valid and let the parent part of the
  path resolve, with creation of intermediate directories, to a directory. Then
  \<^item> the write raises the out-of-space error exactly when the free space plus the size of
    an existing file of that name (0 if there is none) is less than the new length, and
    otherwise it succeeds;
  \<^item> when it raises that error the tree is the one that the resolution of the parent
    left; it is the tree from before the call whenever the parent directory was in the
    tree before the call;
  \<^item> when it overwrites an existing file, the free space decreases by the new length
    less the old size.
\<close>

theorem write_file_capacity:
  assumes "os_path_split env path = (dirname, basename)" and "is_valid_filename basename"
    and "get_node_at_path env s (or_dot dirname) True = (Inr (Some l), s1)"
    and "get_at (root s1) l = Some (Dir nm cr md content)"
  shows "(fst (write_file env s path txt) = Inl IOError \<longleftrightarrow>
            fst (get_free_space s) + existing_size content basename < int (length txt)) \<and>
         (fst (write_file env s path txt) \<noteq> Inl IOError \<longrightarrow>
            fst (write_file env s path txt) = Inr True) \<and>
         (fst (write_file env s path txt) = Inl IOError \<longrightarrow>
            root (snd (write_file env s path txt)) = root s1 \<and>
            (get_at (root s) l \<noteq> None \<longrightarrow> root (snd (write_file env s path txt)) = root s)) \<and>
         (\<forall>fn fc fm old_size old.
            fst (write_file env s path txt) = Inr True \<and>
            map_of content basename = Some (File fn fc fm old_size old) \<longrightarrow>
            fst (get_free_space (snd (write_file env s path txt))) =
              fst (get_free_space s) - (int (length txt) - old_size))"
proof -
  note w = write_file_resolved [OF assms, of "txt"]
  have g: "grows True (set (butlast (parse_path (or_dot dirname)))) s s1"
    using assms(3) by (rule get_node_at_path_grows)
  have f: "fst (get_free_space s1) = fst (get_free_space s)"
    using g by (rule grows_free_space)
  have t: "total_space s1 = total_space s" using g by (simp add: grows_def)
  have e: "get_at (root s) l \<noteq> None \<Longrightarrow> s1 = s"
    using get_node_at_path_existing [OF assms(3)] by blast
  have 1: "fst (write_file env s path txt) = Inl IOError \<longleftrightarrow>
            fst (get_free_space s) + existing_size content basename < int (length txt)"
    using w f by simp
  have 2: "fst (write_file env s path txt) \<noteq> Inl IOError \<longrightarrow>
            fst (write_file env s path txt) = Inr True"
    using w by simp
  have 3: "fst (write_file env s path txt) = Inl IOError \<longrightarrow>
            root (snd (write_file env s path txt)) = root s1 \<and>
            (get_at (root s) l \<noteq> None \<longrightarrow> root (snd (write_file env s path txt)) = root s)"
    using w e by (auto split: if_splits)
  have 4: "\<forall>fn fc fm old_size old.
            fst (write_file env s path txt) = Inr True \<and>
            map_of content basename = Some (File fn fc fm old_size old) \<longrightarrow>
            fst (get_free_space (snd (write_file env s path txt))) =
              fst (get_free_space s) - (int (length txt) - old_size)"
  proof (intro allI impI)
    fix fn fc fm old_size old
    assume a: "fst (write_file env s path txt) = Inr True \<and>
            map_of content basename = Some (File fn fc fm old_size old)"
    with w have s': "snd (write_file env s path txt) =
        s1\<lparr>used_space := calculate_used_space (root s1), ticks := Suc (ticks s1),
               root := update_at
                 (update_at (root s1) l
                    (set_child basename
                       (write_entry basename (clock env (ticks s1)) txt (map_of content basename))))
                 l (set_modified (clock env (ticks s1)))\<rparr>"
      by (simp split: if_splits)
    have "fst (get_free_space (snd (write_file env s path txt))) =
            total_space s1 - (calculate_used_space (root s1) - old_size + int (length txt))"
      unfolding s' using write_file_used_after [OF assms(4)] a
      by (simp add: get_free_space_fst)
    also have "\<dots> = fst (get_free_space s) - (int (length txt) - old_size)"
      using f by (simp add: get_free_space_fst)
    finally show "fst (get_free_space (snd (write_file env s path txt))) =
              fst (get_free_space s) - (int (length txt) - old_size)" .
  qed
  from 1 2 3 4 show ?thesis by blast
qed

theorem write_file_capacity_witness:
  "os_path_split nt_env (''DOS'' @ [bs] @ ''README.TXT'') = (''DOS'', ''README.TXT'') \<and>
   is_valid_filename ''README.TXT'' \<and>
   get_node_at_path nt_env (init_fs nt_env) (or_dot ''DOS'') True =
     (Inr (Some [''DOS'']), init_fs nt_env) \<and>
   get_at (root (init_fs nt_env)) [''DOS''] =
     Some (Dir ''DOS'' 2 3 [(''README.TXT'', File ''README.TXT'' 4 5 177 readme_text)]) \<and>
   fst (get_free_space (init_fs nt_env)) = 10485583 \<and>
   fst (write_file nt_env (init_fs nt_env) (''DOS'' @ [bs] @ ''README.TXT'') ''hi'') = Inr True \<and>
   fst (get_free_space (snd (write_file nt_env (init_fs nt_env) (''DOS'' @ [bs] @ ''README.TXT'') ''hi''))) =
     10485758 \<and>
   fst (write_file nt_env (init_fs nt_env) (''DOS'' @ [bs] @ ''README.TXT'')
          (replicate 10485761 (CHR ''x''))) = Inl IOError \<and>
   root (snd (write_file nt_env (init_fs nt_env) (''DOS'' @ [bs] @ ''README.TXT'')
          (replicate 10485761 (CHR ''x'')))) = root (init_fs nt_env)"
proof -
  have a: "os_path_split nt_env (''DOS'' @ [bs] @ ''README.TXT'') = (''DOS'', ''README.TXT'')"
    by (simp add: eval_defs)
  have b: "is_valid_filename ''README.TXT''"
    by (simp add: eval_defs)
  have c: "get_node_at_path nt_env (init_fs nt_env) (or_dot ''DOS'') True =
     (Inr (Some [''DOS'']), init_fs nt_env)"
    by (simp add: eval_defs)
  have d: "get_at (root (init_fs nt_env)) [''DOS''] =
     Some (Dir ''DOS'' 2 3 [(''README.TXT'', File ''README.TXT'' 4 5 177 readme_text)])"
    by (simp add: eval_defs)
  have f: "fst (get_free_space (init_fs nt_env)) = 10485583"
    by (simp add: eval_defs)
  have x: "existing_size [(''README.TXT'', File ''README.TXT'' (4::nat) 5 177 readme_text)] ''README.TXT'' = 177"
    by (simp add: existing_size_def)
  let ?W = "write_file nt_env (init_fs nt_env) (''DOS'' @ [bs] @ ''README.TXT'') ''hi''"
  let ?V = "write_file nt_env (init_fs nt_env) (''DOS'' @ [bs] @ ''README.TXT'')
              (replicate 10485761 (CHR ''x''))"
  note hi = write_file_capacity [OF a b c d, of "''hi''"]
  note big = write_file_capacity [OF a b c d, of "replicate 10485761 (CHR ''x'')"]
  have "fst ?W \<noteq> Inl IOError"
    using hi [THEN conjunct1] unfolding f x by simp
  with hi have w1: "fst ?W = Inr True" by blast
  from hi w1 have "fst (get_free_space (snd ?W)) =
      fst (get_free_space (init_fs nt_env)) - (int (length ''hi'') - 177)"
    by simp
  then have w2: "fst (get_free_space (snd ?W)) = 10485758" unfolding f by simp
  have v1: "fst ?V = Inl IOError"
    using big [THEN conjunct1] unfolding f x by simp
  with big d have v2: "root (snd ?V) = root (init_fs nt_env)" by simp
  from a b c d f w1 w2 v1 v2 show ?thesis by blast
qed

theorem write_out_of_space_counterexample:
  "os_path_split nt_env (''D:'' @ [bs] @ ''f.txt'') = (''D:'' @ [bs], ''f.txt'') \<and>
   is_valid_filename ''f.txt'' \<and>
   fst (get_node_at_path nt_env (init_fs nt_env) (''D:'' @ [bs]) True) = Inr (Some [''D:'']) \<and>
   fst (write_file nt_env (init_fs nt_env) (''D:'' @ [bs] @ ''f.txt'') (replicate 10485584 (CHR ''x''))) =
     Inl IOError \<and>
   root (snd (write_file nt_env (init_fs nt_env) (''D:'' @ [bs] @ ''f.txt'') (replicate 10485584 (CHR ''x'')))) =
     Dir ''C:'' 0 1
       [(''DOS'', Dir ''DOS'' 2 3 [(''README.TXT'', File ''README.TXT'' 4 5 177 readme_text)]),
        (''D:'', Dir ''D:'' 6 7 [])] \<and>
   root (snd (write_file nt_env (init_fs nt_env) (''D:'' @ [bs] @ ''f.txt'') (replicate 10485584 (CHR ''x'')))) \<noteq>
     root (init_fs nt_env) \<and>
   os_path_split posix_env (''X'' @ [bs] @ ''/f.txt'') = (''X'' @ [bs], ''f.txt'') \<and>
   fst (get_node_at_path posix_env (init_fs posix_env) (''X'' @ [bs]) True) = Inr (Some [''X'']) \<and>
   fst (write_file posix_env (init_fs posix_env) (''X'' @ [bs] @ ''/f.txt'') (replicate 10485584 (CHR ''x''))) =
     Inl IOError \<and>
   root (snd (write_file posix_env (init_fs posix_env) (''X'' @ [bs] @ ''/f.txt'') (replicate 10485584 (CHR ''x'')))) =
     Dir ''C:'' 0 1
       [(''DOS'', Dir ''DOS'' 2 3 [(''README.TXT'', File ''README.TXT'' 4 5 177 readme_text)]),
        (''X'', Dir ''X'' 6 7 [])] \<and>
   root (snd (write_file posix_env (init_fs posix_env) (''X'' @ [bs] @ ''/f.txt'') (replicate 10485584 (CHR ''x'')))) \<noteq>
     root (init_fs posix_env)"
  by (simp add: eval_defs op_defs)

section \<open>After a write\<close>

lemma anchor_ref_mono:
  assumes "anchor_ref env s a = Inr (Some la)"
    and "current_path s' = current_path s"
    and "get_at (root s') la \<noteq> None"
  shows "anchor_ref env s' a = Inr (Some la)"
proof (cases a)
  case FromRoot
  with assms show ?thesis by (simp add: anchor_ref_def)
next
  case FromCurrent
  with assms show ?thesis
    by (auto simp add: anchor_ref_def cur_ref_lookup lookup_def split: if_splits)
next
  case FromParent
  show ?thesis
  proof (cases "is_rooted (join [bs] (current_path s))")
    case False
    with assms FromParent show ?thesis by (simp add: anchor_ref_def cur_ref_lookup)
  next
    case True
    note r = this
    then have r': "is_rooted (join [bs] (current_path s'))" using assms(2) by simp
    show ?thesis
    proof (cases "length (current_path s) > 1")
      case False
      with assms FromParent r r' show ?thesis by (simp add: anchor_ref_def cur_ref_lookup)
    next
      case True
      then have l': "length (current_path s') > 1" using assms(2) by simp
      from assms FromParent r True
      have "parent_ref env s = Inr (Some la)" by (simp add: anchor_ref_def cur_ref_lookup)
      then have "la = nonempty (tl (parse_path (join [bs] (butlast (current_path s)))))"
        using r True by (auto simp add: parent_ref_lookup lookup_def split: if_splits)
      with assms(2) assms(3) have "parent_ref env s' = Inr (Some la)"
        using r' l' by (simp add: parent_ref_lookup lookup_def)
      with FromParent r' l' show ?thesis by (simp add: anchor_ref_def cur_ref_lookup)
    qed
  qed
qed

lemma get_at_update_at_above:
  assumes "get_at r (la @ k) \<noteq> None"
  shows "get_at (update_at r (la @ k) f) la \<noteq> None"
proof -
  from assms have e: "get_at r la \<noteq> None" by (rule get_at_prefix)
  show ?thesis
  proof (cases "k = []")
    case True
    with assms show ?thesis by (auto simp add: get_at_update_at_same)
  next
    case False
    then have "take (length (la @ k)) la \<noteq> la @ k"
      by (metis append_self_conv take_all_iff length_append le_add1 append_eq_conv_conj)
    with e show ?thesis by (simp add: get_at_update_at)
  qed
qed

lemma write_file_success:
  assumes "write_file env s path txt = (Inr True, s')"
  shows "\<exists>l s1 nm cr md content.
           is_valid_filename (snd (os_path_split env path)) \<and>
           get_node_at_path env s (or_dot (fst (os_path_split env path))) True = (Inr (Some l), s1) \<and>
           get_at (root s1) l = Some (Dir nm cr md content) \<and>
           current_path s' = current_path s1 \<and>
           root s' = update_at
                 (update_at (root s1) l
                    (set_child (snd (os_path_split env path))
                       (write_entry (snd (os_path_split env path)) (clock env (ticks s1)) txt
                          (map_of content (snd (os_path_split env path))))))
                 l (set_modified (clock env (ticks s1)))"
  using assms
  by (auto simp add: write_file_def time_time_def get_free_space_def
      split: prod.splits if_splits sum.splits option.splits node.splits)

lemma written_file_found:
  assumes "get_at r l = Some (Dir nm cr md content)"
  shows "get_at (update_at (update_at r l (set_child b v)) l (set_modified now)) (l @ [b]) = Some v"
proof -
  have 1: "get_at (update_at r l (set_child b v)) l = Some (set_child b v (Dir nm cr md content))"
    using assms by (rule get_at_update_at_same)
  show ?thesis
    using get_at_update_at_ext [OF 1, of "set_modified now" "[b]"]
    by (simp add: update_conv')
qed


section \<open>Writing, then reading\<close>

lemma write_then_read_aux:
  assumes "os_path_split env path = (dirname, basename)"
    and "segments (or_dot dirname) = (a, ks)"
    and "segments path = (a, ks @ [basename])"
    and "write_file env s path txt = (Inr True, s')"
  shows "read_file env s' path = (Inr (Some txt), s') \<and>
         (\<exists>l nm cr md.
            get_node_at_path env s' path False = (Inr (Some l), s') \<and>
            get_at (root s') l = Some (File nm cr md (int (length txt)) txt))"
proof -
  from write_file_success [OF assms(4)] assms(1) obtain l s1 nm cr md content where
    w: "get_node_at_path env s (or_dot dirname) True = (Inr (Some l), s1)"
       "get_at (root s1) l = Some (Dir nm cr md content)"
       "current_path s' = current_path s1"
       "root s' = update_at
                 (update_at (root s1) l
                    (set_child basename
                       (write_entry basename (clock env (ticks s1)) txt (map_of content basename))))
                 l (set_modified (clock env (ticks s1)))"
    by auto
  let ?v = "write_entry basename (clock env (ticks s1)) txt (map_of content basename)"
  from assms(2) have a: "anchor_of (or_dot dirname) = a" "nonempty (walk_parts (or_dot dirname)) = ks"
    by (simp_all add: segments_def)
  from assms(3) have p: "anchor_of path = a" "nonempty (walk_parts path) = ks @ [basename]"
    by (simp_all add: segments_def)
  from get_node_at_path_Some [OF w(1)] a obtain la where
    la: "anchor_ref env s a = Inr (Some la)" "l = la @ ks"
    by auto
  have g: "grows True (set (butlast (parse_path (or_dot dirname)))) s s1"
    using w(1) by (rule get_node_at_path_grows)
  then have cp: "current_path s' = current_path s" using w(3) by (simp add: grows_def)
  have "get_at (root s1) (la @ ks) \<noteq> None" using w(2) la(2) by simp
  then have "get_at (update_at (root s1) (la @ ks) (set_child basename ?v)) (la @ ks) \<noteq> None"
    by (auto simp add: get_at_update_at_same)
  then have "get_at (root s') la \<noteq> None"
    unfolding w(4) la(2) by (rule get_at_update_at_above)
  from anchor_ref_mono [OF la(1) cp this] have an: "anchor_ref env s' a = Inr (Some la)" .
  have found: "get_at (root s') (l @ [basename]) = Some ?v"
    unfolding w(4) using w(2) by (rule written_file_found)
  have res: "get_node_at_path env s' path False = (Inr (Some (l @ [basename])), s')"
    using an p found la(2) by (simp add: resolve_eq lookup_def)
  obtain fn fc where v: "?v = File fn fc (clock env (ticks s1)) (int (length txt)) txt"
    using write_entry_File [of basename "clock env (ticks s1)" "txt" "map_of content basename"]
    by (rule that)
  from res found v have "read_file env s' path = (Inr (Some txt), s')"
    by (simp add: read_file_def deref_def)
  with res found v show ?thesis by auto
qed

text \<open>
  Claim C1, as the code has it. \<open>segments\<close> gives what resolution walks for a path: the
  anchor and the non-empty segments after it. Let \<open>os.path.split\<close> cut the path into a
  parent part and a file name such that the path walks, from the same anchor, the
  segments of the parent part and then the file name. If the write succeeds, then
  reading the path returns exactly the text written, and the node found at the path is
  a file whose size is the length of that text.
\<close>

theorem write_then_read:
  assumes "os_path_split env path = (dirname, basename)"
    and "segments (or_dot dirname) = (a, ks)"
    and "segments path = (a, ks @ [basename])"
    and "write_file env s path txt = (Inr True, s')"
  shows "read_file env s' path = (Inr (Some txt), s') \<and>
         (\<exists>l nm cr md.
            get_node_at_path env s' path False = (Inr (Some l), s') \<and>
            get_at (root s') l = Some (File nm cr md (int (length txt)) txt))"
  using assms by (rule write_then_read_aux)

theorem write_then_read_witness:
  "os_path_split nt_env (''NEWDIR'' @ [bs] @ ''A.TXT'') = (''NEWDIR'', ''A.TXT'') \<and>
   segments (or_dot ''NEWDIR'') = (FromCurrent, [''NEWDIR'']) \<and>
   segments (''NEWDIR'' @ [bs] @ ''A.TXT'') = (FromCurrent, [''NEWDIR''] @ [''A.TXT'']) \<and>
   fst (write_file nt_env (snd (create_directory nt_env (init_fs nt_env) ''NEWDIR''))
          (''NEWDIR'' @ [bs] @ ''A.TXT'') ''hi'') = Inr True \<and>
   fst (read_file nt_env
          (snd (write_file nt_env (snd (create_directory nt_env (init_fs nt_env) ''NEWDIR''))
             (''NEWDIR'' @ [bs] @ ''A.TXT'') ''hi''))
          (''NEWDIR'' @ [bs] @ ''A.TXT'')) = Inr (Some ''hi'')"
proof -
  let ?s = "snd (create_directory nt_env (init_fs nt_env) ''NEWDIR'')"
  let ?p = "''NEWDIR'' @ [bs] @ ''A.TXT''"
  have a: "os_path_split nt_env ?p = (''NEWDIR'', ''A.TXT'')"
    by (simp add: eval_defs)
  have b: "segments (or_dot ''NEWDIR'') = (FromCurrent, [''NEWDIR''])"
    by (simp add: eval_defs segments_def anchor_of_def walk_parts_def is_rooted_def nonempty_def)
  have c: "segments ?p = (FromCurrent, [''NEWDIR''] @ [''A.TXT''])"
    by (simp add: eval_defs segments_def anchor_of_def walk_parts_def is_rooted_def nonempty_def)
  have d: "fst (write_file nt_env ?s ?p ''hi'') = Inr True"
    by (simp add: eval_defs op_defs)
  then have e: "write_file nt_env ?s ?p ''hi'' = (Inr True, snd (write_file nt_env ?s ?p ''hi''))"
    by (metis prod.collapse)
  from write_then_read [OF a b c e] a b c d show ?thesis by simp
qed

theorem write_read_drive_relative_counterexample:
  "os_path_split nt_env ''C:f.txt'' = (''C:'', ''f.txt'') \<and> is_valid_filename ''f.txt'' \<and>
   fst (write_file nt_env (init_fs nt_env) ''C:f.txt'' ''hi'') = Inr True \<and>
   fst (read_file nt_env (snd (write_file nt_env (init_fs nt_env) ''C:f.txt'' ''hi'')) ''C:f.txt'') = Inr None"
  by (simp add: eval_defs op_defs)

section \<open>Names and the drive segment\<close>

lemma is_rooted_iff: "is_rooted path \<longleftrightarrow> path = [] \<or> hd (parse_path path) = ''C:''"
proof -
  have a: "parse_path ''C:'' = [''C:'']"
    by (simp add: parse_path_eq normalize_seps_def bs_def)
  have b: "parse_path (''C:'' @ [bs]) = [''C:'', []]"
    using parse_path_drive_rooted [of "[]"] by (simp add: normalize_seps_def)
  show ?thesis
    using a b by (cases "parse_path path") (auto simp add: is_rooted_def)
qed

lemma is_rooted_drive: "is_rooted (join [bs] (''C:'' # segs))"
proof (cases segs)
  case Nil
  then show ?thesis by (simp add: is_rooted_def)
next
  case (Cons x xs)
  then have "join [bs] (''C:'' # segs) = ''C:'' @ bs # join [bs] segs" by simp
  then show ?thesis
    using parse_path_drive_rooted [of "join [bs] segs"] by (simp add: is_rooted_iff)
qed

lemma segments_valid_name:
  assumes "is_valid_filename b"
  shows "anchor_of b = FromCurrent" "walk_parts b = [b]"
proof -
  note c = valid_name_chars [OF assms]
  have p: "parse_path b = [b]" using assms by (rule parse_path_valid_name)
  have nd: "b \<noteq> ''C:''" using valid_name_not_drive [OF assms] by simp
  have nr: "\<not> is_rooted b" using p c(1) nd by (simp add: is_rooted_iff)
  show "anchor_of b = FromCurrent" using nr p c by (simp add: anchor_of_def)
  show "walk_parts b = [b]" using nr p c by (simp add: walk_parts_def skip_dot_def)
qed

lemma parse_path_dotdot: "parse_path ''..'' = [''..'']"
  by (simp add: parse_path_eq normalize_seps_def bs_def drive_segment_def)

lemma segments_dotdot: "anchor_of ''..'' = FromParent" "walk_parts ''..'' = []"
  by (simp_all add: anchor_of_def walk_parts_def is_rooted_iff parse_path_dotdot skip_dot_def)

lemma join_drive_snoc:
  "join [bs] ((''C:'' # segs) @ [sub]) = join [bs] (''C:'' # segs) @ bs # sub"
  using join_snoc [of "''C:'' # segs" "[bs]" sub] by simp

lemma split_on_single: "split_on sep s = [x] \<Longrightarrow> x = s"
proof (induction s arbitrary: x)
  case Nil
  then show ?case by simp
next
  case (Cons c cs)
  show ?case
  proof (cases "c = sep")
    case True
    with Cons.prems show ?thesis by simp
  next
    case False
    with Cons.prems have t: "tl (split_on sep cs) = []" and x: "x = c # hd (split_on sep cs)"
      by auto
    from t have "split_on sep cs = [hd (split_on sep cs)]"
      by (cases "split_on sep cs") simp_all
    from Cons.IH [OF this] x show ?thesis by simp
  qed
qed

lemma colon_normalize: "CHR '':'' \<in> set p \<Longrightarrow> CHR '':'' \<in> set (normalize_seps p)"
  by (induction p) (auto simp add: normalize_seps_def)

lemma drive_segment_length: "CHR '':'' \<in> set p \<Longrightarrow> length (drive_segment p) \<le> 2"
  by (simp add: drive_segment_def Let_def)

text \<open>A name that the parser returns as its only segment, unchanged.\<close>

lemma plain_name:
  assumes "parse_path sub = [sub]" and "sub \<noteq> ''.''" and "sub \<noteq> ''..''" and "sub \<noteq> ''C:''"
  shows "sub \<noteq> []" "take 2 sub \<noteq> ''C:''" "anchor_of sub = FromCurrent" "walk_parts sub = [sub]"
    "cd_relative cp (parse_path sub) = cp @ [sub]"
proof -
  show ne: "sub \<noteq> []" using assms(1) by auto
  from assms(1) ne have
    d: "drive_segment (hd (split_on bs (normalize_seps sub))) = sub"
    and t: "tl (split_on bs (normalize_seps sub)) = []"
    by (simp_all add: parse_path_eq)
  from t have "split_on bs (normalize_seps sub) = [hd (split_on bs (normalize_seps sub))]"
    by (cases "split_on bs (normalize_seps sub)") simp_all
  then have "hd (split_on bs (normalize_seps sub)) = normalize_seps sub"
    by (rule split_on_single)
  with d have ds: "drive_segment (normalize_seps sub) = sub" by simp
  show t2: "take 2 sub \<noteq> ''C:''"
  proof
    assume e: "take 2 sub = ''C:''"
    then have "CHR '':'' \<in> set (take 2 sub)" by simp
    then have "CHR '':'' \<in> set sub" by (rule in_set_takeD)
    then have "length (drive_segment (normalize_seps sub)) \<le> 2"
      by (intro drive_segment_length colon_normalize)
    with ds have "length sub \<le> 2" by simp
    with e have "sub = ''C:''" by simp
    with assms(4) show False by simp
  qed
  have nr: "\<not> is_rooted sub" using assms(1) assms(4) ne by (simp add: is_rooted_iff)
  show "anchor_of sub = FromCurrent" using nr assms by (simp add: anchor_of_def)
  show "walk_parts sub = [sub]" using nr assms by (simp add: walk_parts_def skip_dot_def)
  show "cd_relative cp (parse_path sub) = cp @ [sub]" using assms ne by simp
qed

section \<open>Into a subdirectory and back\<close>

text \<open>
  Claim C7, as the code has it. Let the current-directory sequence start with the drive
  segment and resolve to a directory, and let that directory hold a subdirectory under
  the name \<open>sub\<close>, where \<open>sub\<close> is a name that the parser returns as its only segment,
  unchanged, and is none of \<open>.\<close>, \<open>..\<close> and \<open>C:\<close>. Then \<open>change_directory sub\<close> succeeds
  and appends \<open>sub\<close> to the sequence, and \<open>change_directory ".."\<close> after it succeeds and
  gives back the state from before the first call, with the sequence that held then.
  The name need not be a valid file name.
\<close>

theorem cd_into_and_back:
  assumes "current_path s = ''C:'' # segs"
    and "fst (get_current_node env s) = Inr (Some lc)"
    and "get_at (root s) lc = Some (Dir nm cr md ch)"
    and "map_of ch sub = Some (Dir snm scr smd sch)"
    and "parse_path sub = [sub]"
    and "sub \<noteq> ''.''" and "sub \<noteq> ''..''" and "sub \<noteq> ''C:''"
  shows "change_directory env s sub = (Inr True, s\<lparr>current_path := current_path s @ [sub]\<rparr>) \<and>
         change_directory env (s\<lparr>current_path := current_path s @ [sub]\<rparr>) ''..'' = (Inr True, s)"
proof -
  let ?s1 = "s\<lparr>current_path := current_path s @ [sub]\<rparr>"
  from assms(2) have cur: "cur_ref env s = Inr (Some lc)"
    by (simp add: get_current_node_eq)
  have r: "is_rooted (join [bs] (current_path s))"
    unfolding assms(1) by (rule is_rooted_drive)
  from cur r have lc: "lc = nonempty (tl (parse_path (join [bs] (current_path s))))"
    by (auto simp add: cur_ref_lookup lookup_def split: if_splits)
  note pn = plain_name [OF assms(5) assms(6) assms(7) assms(8)]
  have sub: "get_at (root s) (lc @ [sub]) = Some (Dir snm scr smd sch)"
    using assms(3) assms(4) by (simp add: get_at_append)
  have res1: "get_node_at_path env s sub False = (Inr (Some (lc @ [sub])), s)"
    using cur pn(1) pn(3) pn(4) sub by (simp add: resolve_eq anchor_ref_def lookup_def)
  have first: "change_directory env s sub = (Inr True, ?s1)"
    using res1 sub assms(6) assms(7) pn(2) pn(5) [of "current_path s"]
    by (simp add: change_directory_def deref_def)
  have cp1: "current_path ?s1 = ''C:'' # (segs @ [sub])" using assms(1) by simp
  have r1: "is_rooted (join [bs] (current_path ?s1))"
    unfolding cp1 by (rule is_rooted_drive)
  have len: "length (current_path ?s1) > 1" by (simp add: assms(1))
  have bl: "butlast (current_path ?s1) = current_path s" by simp
  have par: "parent_ref env ?s1 = Inr (Some lc)"
    using parent_ref_lookup [OF r1 len, of env] lc assms(3)
    by (simp add: lookup_def)
  have an: "anchor_ref env ?s1 FromParent = Inr (Some lc)"
    using r1 len par by (simp add: anchor_ref_def cur_ref_lookup)
  have g: "get_at (root ?s1) lc = Some (Dir nm cr md ch)" using assms(3) by simp
  have res2: "get_node_at_path env ?s1 ''..'' False = (Inr (Some lc), ?s1)"
    using an g by (simp add: resolve_eq segments_dotdot lookup_def)
  have second: "change_directory env ?s1 ''..'' = (Inr True, s)"
    using res2 g len by (simp add: change_directory_def deref_def)
  from first second show ?thesis by simp
qed

theorem cd_into_and_back_witness:
  "current_path (init_fs nt_env) = ''C:'' # [] \<and>
   fst (get_current_node nt_env (init_fs nt_env)) = Inr (Some []) \<and>
   parse_path ''DOS'' = [''DOS''] \<and>
   change_directory nt_env (init_fs nt_env) ''DOS'' =
     (Inr True, (init_fs nt_env)\<lparr>current_path := [''C:'', ''DOS'']\<rparr>) \<and>
   change_directory nt_env ((init_fs nt_env)\<lparr>current_path := [''C:'', ''DOS'']\<rparr>) ''..'' =
     (Inr True, init_fs nt_env) \<and>
   (let s1 = snd (write_file nt_env (init_fs nt_env) (''a*b'' @ [bs] @ ''f'' @ [bs] @ ''g'') ''x'') in
    \<not> is_valid_filename ''a*b'' \<and> parse_path ''a*b'' = [''a*b''] \<and>
    current_path s1 = ''C:'' # [] \<and>
    fst (get_current_node nt_env s1) = Inr (Some []) \<and>
    get_at (root s1) [''a*b''] = Some (Dir ''a*b'' 6 7 []) \<and>
    change_directory nt_env s1 ''a*b'' = (Inr True, s1\<lparr>current_path := [''C:'', ''a*b'']\<rparr>) \<and>
    change_directory nt_env (s1\<lparr>current_path := [''C:'', ''a*b'']\<rparr>) ''..'' = (Inr True, s1))"
proof -
  note ev = eval_defs op_defs split_on_eval
  have a: "current_path (init_fs nt_env) = ''C:'' # []" by (simp add: init_fs_def)
  have b: "fst (get_current_node nt_env (init_fs nt_env)) = Inr (Some [])"
    by (simp add: ev del: split_on.simps(2))
  have c: "get_at (root (init_fs nt_env)) [] =
     Some (Dir ''C:'' 0 1 [(''DOS'', Dir ''DOS'' 2 3 [(''README.TXT'', File ''README.TXT'' 4 5 177 readme_text)])])"
    by (simp add: eval_defs)
  have d: "map_of [(''DOS'', Dir ''DOS'' (2::nat) 3 [(''README.TXT'', File ''README.TXT'' 4 5 177 readme_text)])] ''DOS'' =
     Some (Dir ''DOS'' 2 3 [(''README.TXT'', File ''README.TXT'' 4 5 177 readme_text)])"
    by simp
  have e: "parse_path ''DOS'' = [''DOS'']" by (simp add: ev del: split_on.simps(2))
  from cd_into_and_back [OF a b c d e]
  have 1: "change_directory nt_env (init_fs nt_env) ''DOS'' =
     (Inr True, (init_fs nt_env)\<lparr>current_path := [''C:'', ''DOS'']\<rparr>) \<and>
   change_directory nt_env ((init_fs nt_env)\<lparr>current_path := [''C:'', ''DOS'']\<rparr>) ''..'' =
     (Inr True, init_fs nt_env)"
    using a by simp
  define s1 where "s1 = snd (write_file nt_env (init_fs nt_env) (''a*b'' @ [bs] @ ''f'' @ [bs] @ ''g'') ''x'')"
  have s1: "s1 = (init_fs nt_env)\<lparr>root := Dir ''C:'' 0 1
       [(''DOS'', Dir ''DOS'' 2 3 [(''README.TXT'', File ''README.TXT'' 4 5 177 readme_text)]),
        (''a*b'', Dir ''a*b'' 6 7 [])], ticks := 8\<rparr>"
    unfolding s1_def by (simp add: ev del: split_on.simps(2))
  have a': "current_path s1 = ''C:'' # []" unfolding s1 by (simp add: init_fs_def)
  have b': "fst (get_current_node nt_env s1) = Inr (Some [])"
    unfolding s1 by (simp add: ev del: split_on.simps(2))
  have c': "get_at (root s1) [] = Some (Dir ''C:'' 0 1
       [(''DOS'', Dir ''DOS'' 2 3 [(''README.TXT'', File ''README.TXT'' 4 5 177 readme_text)]),
        (''a*b'', Dir ''a*b'' 6 7 [])])"
    unfolding s1 by simp
  have d': "map_of [(''DOS'', Dir ''DOS'' (2::nat) 3 [(''README.TXT'', File ''README.TXT'' 4 5 177 readme_text)]),
        (''a*b'', Dir ''a*b'' 6 7 [])] ''a*b'' = Some (Dir ''a*b'' 6 7 [])"
    by simp
  have e': "parse_path ''a*b'' = [''a*b'']" by (simp add: ev del: split_on.simps(2))
  have f': "\<not> is_valid_filename ''a*b''" by (simp add: eval_defs)
  have g': "get_at (root s1) [''a*b''] = Some (Dir ''a*b'' 6 7 [])" unfolding s1 by simp
  from cd_into_and_back [OF a' b' c' d' e']
  have 2: "change_directory nt_env s1 ''a*b'' = (Inr True, s1\<lparr>current_path := [''C:'', ''a*b'']\<rparr>) \<and>
    change_directory nt_env (s1\<lparr>current_path := [''C:'', ''a*b'']\<rparr>) ''..'' = (Inr True, s1)"
    using a' by simp
  from a b e 1 a' b' e' f' g' 2 show ?thesis
    unfolding Let_def s1_def [symmetric] by simp
qed

theorem cd_roundtrip_counterexample:
  "fst (write_file posix_env (init_fs posix_env) ''DOS/./B/f.txt'' ''hi'') = Inl ValueError \<and>
   (let s1 = snd (write_file posix_env (init_fs posix_env) ''DOS/./B/f.txt'' ''hi'');
        s2 = snd (change_directory posix_env s1 ''DOS'');
        s3 = snd (change_directory posix_env s2 ''.'');
        s4 = snd (change_directory posix_env s3 ''..'')
    in current_path s2 = [''C:'', ''DOS''] \<and>
       fst (get_current_node posix_env s2) = Inr (Some [''DOS'']) \<and>
       get_at (root s2) [''DOS'', ''.''] = Some (Dir ''.'' 6 7 []) \<and>
       fst (change_directory posix_env s2 ''.'') = Inr True \<and>
       fst (change_directory posix_env s3 ''..'') = Inr True \<and>
       current_path s4 = [''C:''] \<and> current_path s4 \<noteq> current_path s2)"
  by (simp add: eval_defs op_defs Let_def)

section \<open>Segments of a parsed path\<close>

lemma segments_parts: "path \<noteq> [] \<Longrightarrow> segments path = segs_parts (parse_path path)"
  by (simp add: segments_def segs_parts_def anchor_of_def walk_parts_def is_rooted_iff)

lemma skip_dot_append: "u \<noteq> [] \<Longrightarrow> skip_dot (u @ v) = skip_dot u @ v"
  by (cases u) (auto simp add: skip_dot_def)

lemma skip_dot_Cons: "skip_dot (a # xs) = (if a = ''.'' then xs else a # xs)"
  by (simp add: skip_dot_def)

lemma skip_dot_empty_first: "skip_dot ([] # v) = [] # v"
  by (simp add: skip_dot_def)

lemma segs_parts_insert:
  assumes "u \<noteq> []" and "\<not> (u = [''..''] \<and> v \<noteq> [] \<and> hd v = ''.'')"
  shows "segs_parts (u @ [] # v) = segs_parts (u @ v)"
proof (cases "tl u = []")
  case False
  with assms(1) show ?thesis
    by (cases u; cases "tl u") (auto simp add: segs_parts_def skip_dot_Cons nonempty_def)
next
  case True
  with assms(1) obtain x where u: "u = [x]" by (cases u) auto
  show ?thesis
  proof (cases "x = ''..''")
    case False
    with u show ?thesis
      by (auto simp add: segs_parts_def skip_dot_def nonempty_def)
  next
    case True
    with u assms(2) have "v = [] \<or> hd v \<noteq> ''.''" by auto
    with u True show ?thesis
      by (auto simp add: segs_parts_def skip_dot_def nonempty_def)
  qed
qed

lemma segs_parts_trailing: "u \<noteq> [] \<Longrightarrow> segs_parts (u @ [[]]) = segs_parts u"
  using segs_parts_insert [of u "[]"] by simp

lemma resolve_segments:
  "segments p = segments q \<Longrightarrow> get_node_at_path env s p False = get_node_at_path env s q False"
  by (auto simp add: resolve_eq segments_def split: sum.splits option.splits)

lemma drive_segment_Nil [simp]: "drive_segment [] = []"
  by (simp add: drive_segment_def)

lemma parse_path_sep_first:
  assumes "sep = bs \<or> sep = CHR ''/''"
  shows "parse_path (sep # x) = [] # split_on bs (normalize_seps x)"
  using assms by (auto simp add: parse_path_eq normalize_sep)

section \<open>Empty segments\<close>

text \<open>
  Claim C9, as the code has it. A separator is a backslash or a forward slash.
  \<^item> For a path that is not empty, a trailing separator changes nothing: the path with a
    separator appended resolves as the path does.
  \<^item> A doubled separator changes nothing, except after a lone leading \<open>..\<close> segment that is
    followed by a \<open>.\<close> segment: the path with the separator after \<open>a\<close> doubled resolves
    as the path with the single separator does.
\<close>

theorem resolve_empty_segments:
  "(path \<noteq> [] \<and> (sep = bs \<or> sep = CHR ''/'') \<longrightarrow>
      resolve_path env s (path @ [sep]) = resolve_path env s path) \<and>
   ((sep = bs \<or> sep = CHR ''/'') \<and>
    \<not> (parse_path a = [''..''] \<and> hd (split_on bs (normalize_seps b)) = ''.'') \<longrightarrow>
      resolve_path env s (a @ [sep, sep] @ b) = resolve_path env s (a @ [sep] @ b))"
proof (intro conjI impI)
  assume h: "path \<noteq> [] \<and> (sep = bs \<or> sep = CHR ''/'')"
  then have "parse_path (path @ sep # []) = parse_path path @ split_on bs (normalize_seps [])"
    using parse_path_append_sep by blast
  then have "parse_path (path @ [sep]) = parse_path path @ [[]]"
    by (simp add: normalize_seps_def)
  with h have "segments (path @ [sep]) = segments path"
    by (simp add: segments_parts segs_parts_trailing)
  then show "resolve_path env s (path @ [sep]) = resolve_path env s path"
    unfolding resolve_path_def by (rule resolve_segments)
next
  assume h: "(sep = bs \<or> sep = CHR ''/'') \<and>
    \<not> (parse_path a = [''..''] \<and> hd (split_on bs (normalize_seps b)) = ''.'')"
  let ?v = "split_on bs (normalize_seps b)"
  have n: "normalize_seps (sep # b) = bs # normalize_seps b"
    using h by (simp add: normalize_sep)
  have "segments (a @ sep # sep # b) = segments (a @ sep # b)"
  proof (cases "a = []")
    case True
    have 1: "parse_path (sep # sep # b) = [] # [] # ?v"
      using h n by (simp add: parse_path_sep_first)
    have 2: "parse_path (sep # b) = [] # ?v"
      using h by (simp add: parse_path_sep_first)
    from True 1 2 segs_parts_insert [of "[[]]" ?v] show ?thesis
      by (simp add: segments_parts)
  next
    case False
    have 1: "parse_path (a @ sep # sep # b) = parse_path a @ [] # ?v"
      using parse_path_append_sep [OF False, of sep "sep # b"] h n by simp
    have 2: "parse_path (a @ sep # b) = parse_path a @ ?v"
      using parse_path_append_sep [OF False, of sep b] h by simp
    have u: "parse_path a \<noteq> []" using False by simp
    from h have "\<not> (parse_path a = [''..''] \<and> ?v \<noteq> [] \<and> hd ?v = ''.'')" by simp
    from segs_parts_insert [OF u this] 1 2 False show ?thesis
      by (simp add: segments_parts)
  qed
  then show "resolve_path env s (a @ [sep, sep] @ b) = resolve_path env s (a @ [sep] @ b)"
    unfolding resolve_path_def using resolve_segments by simp
qed

theorem resolve_empty_segments_witness:
  "resolve_path nt_env (init_fs nt_env) (''DOS'' @ [bs]) = resolve_path nt_env (init_fs nt_env) ''DOS'' \<and>
   fst (resolve_path nt_env (init_fs nt_env) ''DOS'') = Inr (Some [''DOS'']) \<and>
   parse_path ''DOS'' \<noteq> [''..''] \<and>
   resolve_path nt_env (init_fs nt_env) (''DOS'' @ [bs, bs] @ ''README.TXT'') =
     resolve_path nt_env (init_fs nt_env) (''DOS'' @ [bs] @ ''README.TXT'') \<and>
   fst (resolve_path nt_env (init_fs nt_env) (''DOS'' @ [bs] @ ''README.TXT'')) =
     Inr (Some [''DOS'', ''README.TXT''])"
proof -
  have p: "parse_path ''DOS'' \<noteq> [''..'']" by (simp add: eval_defs)
  have a: "fst (resolve_path nt_env (init_fs nt_env) ''DOS'') = Inr (Some [''DOS''])"
    by (simp add: eval_defs op_defs)
  have b: "fst (resolve_path nt_env (init_fs nt_env) (''DOS'' @ [bs] @ ''README.TXT'')) =
     Inr (Some [''DOS'', ''README.TXT''])"
    by (simp add: eval_defs op_defs)
  from resolve_empty_segments [of "''DOS''" bs nt_env "init_fs nt_env" "''DOS''" "''README.TXT''"]
    p a b show ?thesis by simp
qed

theorem resolve_trailing_separator_counterexample:
  "fst (change_directory nt_env (init_fs nt_env) ''DOS'') = Inr True \<and>
   (let s = snd (change_directory nt_env (init_fs nt_env) ''DOS'')
    in fst (resolve_path nt_env s []) = Inr (Some []) \<and>
       fst (resolve_path nt_env s ([] @ [bs])) = Inr (Some [''DOS'']) \<and>
       fst (resolve_path nt_env s (''..'' @ [bs] @ ''.'')) = Inr (Some []) \<and>
       fst (resolve_path nt_env s (''..'' @ [bs, bs] @ ''.'')) = Inr None)"
  by (simp add: eval_defs op_defs Let_def)

section \<open>Operations in a state whose current directory resolves\<close>

lemma abs_prefix:
  assumes "length cp > 1"
  shows "\<exists>k. nonempty (tl (parse_path (join [bs] cp))) =
              nonempty (tl (parse_path (join [bs] (butlast cp)))) @ k"
proof -
  from assms have ne: "butlast cp \<noteq> []" by (cases cp) auto
  from assms have "cp = butlast cp @ [last cp]" by (cases cp) auto
  then have j: "join [bs] cp = join [bs] (butlast cp) @ bs # last cp"
    using join_snoc [OF ne, of "[bs]" "last cp"] by simp
  show ?thesis
  proof (cases "join [bs] (butlast cp) = []")
    case True
    then show ?thesis by simp
  next
    case False
    then have "parse_path (join [bs] cp) =
                 parse_path (join [bs] (butlast cp)) @ split_on bs (normalize_seps (last cp))"
      unfolding j using parse_path_append_sep by blast
    moreover have "parse_path (join [bs] (butlast cp)) \<noteq> []" using False by simp
    ultimately show ?thesis by simp
  qed
qed

lemma healthy_anchor:
  assumes "cur_ref env s = Inr (Some lc)"
  shows "\<exists>la. anchor_ref env s a = Inr (Some la) \<and> get_at (root s) la \<noteq> None"
proof -
  from assms have r: "is_rooted (join [bs] (current_path s))"
    by (auto simp add: cur_ref_lookup split: if_splits)
  from assms r have lc: "lc = nonempty (tl (parse_path (join [bs] (current_path s))))"
      "get_at (root s) lc \<noteq> None"
    by (auto simp add: cur_ref_lookup lookup_def split: if_splits)
  show ?thesis
  proof (cases a)
    case FromRoot
    then show ?thesis by (simp add: anchor_ref_def)
  next
    case FromCurrent
    with assms lc show ?thesis by (simp add: anchor_ref_def)
  next
    case FromParent
    show ?thesis
    proof (cases "length (current_path s) > 1")
      case False
      with FromParent assms show ?thesis by (simp add: anchor_ref_def)
    next
      case True
      from abs_prefix [OF True] lc obtain k where
        "lc = nonempty (tl (parse_path (join [bs] (butlast (current_path s))))) @ k"
        by auto
      with lc(2) have "get_at (root s) (nonempty (tl (parse_path (join [bs] (butlast (current_path s)))))) \<noteq> None"
        using get_at_prefix by metis
      with FromParent assms True r show ?thesis
        by (simp add: anchor_ref_def parent_ref_lookup lookup_def)
    qed
  qed
qed

lemma healthy_no_raise:
  assumes "cur_ref env s = Inr (Some lc)"
  shows "\<exists>x. fst (get_node_at_path env s path cd) = Inr x"
proof -
  from healthy_anchor [OF assms] obtain la where
    la: "anchor_ref env s (anchor_of path) = Inr (Some la)" "get_at (root s) la \<noteq> None"
    by blast
  obtain r s' where t: "traverse env cd (walk_parts path) (Some la) s = (r, s')"
    by (cases "traverse env cd (walk_parts path) (Some la) s")
  from traverse_grows [OF la(2) t] obtain x where "r = Inr x" by blast
  with la(1) t show ?thesis by (simp add: get_node_at_path_anchor)
qed

lemma healthy_resolve:
  assumes "cur_ref env s = Inr (Some lc)"
  shows "\<exists>x. get_node_at_path env s path False = (Inr x, s)"
  using healthy_no_raise [OF assms, of path False] get_node_at_path_no_create_eq [of env s path]
  by (metis)

lemma take2_drive_nonempty: "take 2 path = ''C:'' \<Longrightarrow> parse_path path \<noteq> []"
  by auto


lemma change_directory_no_raise:
  assumes "cur_ref env s = Inr (Some lc)"
  shows "\<exists>b. fst (change_directory env s path) = Inr b"
proof -
  from healthy_resolve [OF assms] obtain x where
    x: "get_node_at_path env s path False = (Inr x, s)" by blast
  show ?thesis
    using x take2_drive_nonempty [of path]
    by (auto simp add: change_directory_def split: option.splits node.splits list.splits)
qed

lemma create_directory_no_raise:
  assumes "cur_ref env s = Inr (Some lc)"
  shows "\<exists>b. fst (create_directory env s path) = Inr b"
proof -
  obtain d b where sp: "os_path_split env path = (d, b)" by (cases "os_path_split env path")
  from healthy_resolve [OF assms] obtain x where
    x: "get_node_at_path env s (or_dot d) False = (Inr x, s)" by blast
  show ?thesis
    using x sp
    by (auto simp add: create_directory_def time_time_def split: option.splits node.splits)
qed

lemma remove_directory_no_raise:
  assumes "cur_ref env s = Inr (Some lc)"
  shows "\<exists>b. fst (remove_directory env s path) = Inr b"
proof -
  obtain d b where sp: "os_path_split env path = (d, b)" by (cases "os_path_split env path")
  from healthy_resolve [OF assms] obtain x where
    x: "get_node_at_path env s (or_dot d) False = (Inr x, s)" by blast
  show ?thesis
    using x sp
    by (auto simp add: remove_directory_def time_time_def split: option.splits node.splits)
qed

lemma delete_file_no_raise:
  assumes "cur_ref env s = Inr (Some lc)"
  shows "\<exists>b. fst (delete_file env s path) = Inr b"
proof -
  obtain d b where sp: "os_path_split env path = (d, b)" by (cases "os_path_split env path")
  from healthy_resolve [OF assms] obtain x where
    x: "get_node_at_path env s (or_dot d) False = (Inr x, s)" by blast
  show ?thesis
    using x sp
    by (auto simp add: delete_file_def time_time_def split: option.splits node.splits)
qed

lemma rename_file_no_raise:
  assumes "cur_ref env s = Inr (Some lc)"
  shows "\<exists>b. fst (rename_file env s path newname) = Inr b"
proof -
  obtain d b where sp: "os_path_split env path = (d, b)" by (cases "os_path_split env path")
  from healthy_resolve [OF assms] obtain x where
    x: "get_node_at_path env s (or_dot d) False = (Inr x, s)" by blast
  show ?thesis
    using x sp
    by (auto simp add: rename_file_def time_time_def split: option.splits node.splits)
qed

lemma read_file_no_raise:
  assumes "cur_ref env s = Inr (Some lc)"
  shows "\<exists>b. read_file env s path = (Inr b, s)"
proof -
  from healthy_resolve [OF assms] obtain x where
    x: "get_node_at_path env s path False = (Inr x, s)" by blast
  show ?thesis
    using x by (auto simp add: read_file_def split: option.splits node.splits)
qed

lemma copy_file_no_raise:
  assumes "cur_ref env s = Inr (Some lc)"
  shows "\<exists>b. fst (copy_file env s source destination) = Inr b"
proof -
  from read_file_no_raise [OF assms] obtain x where
    x: "read_file env s source = (Inr x, s)" by blast
  show ?thesis
    using x by (auto simp add: copy_file_def split: option.splits prod.splits sum.splits)
qed

lemma list_directory_no_raise:
  assumes "cur_ref env s = Inr (Some lc)"
  shows "\<exists>b. fst (list_directory env s path) = Inr b"
proof -
  from healthy_resolve [OF assms] obtain x where
    x: "get_node_at_path env s path False = (Inr x, s)" by blast
  from healthy_resolve [OF assms] obtain y where
    y: "get_node_at_path env s ''..'' False = (Inr y, s)" by blast
  from healthy_resolve [OF assms] obtain z where
    z: "get_node_at_path env s (fst (os_path_split env path)) False = (Inr z, s)" by blast
  show ?thesis
    using x y z
    by (auto simp add: list_directory_def Let_def split: option.splits node.splits)
qed

lemma write_file_invalid_name:
  "\<not> is_valid_filename (snd (os_path_split env path)) \<Longrightarrow>
   write_file env s path txt = (Inl ValueError, s)"
  by (cases "os_path_split env path") (simp add: write_file_def)

lemma write_file_no_parent:
  assumes "is_valid_filename (snd (os_path_split env path))"
    and "get_node_at_path env s (or_dot (fst (os_path_split env path))) True = (Inr r, s1)"
    and "\<not> is_dir_ref s1 r"
  shows "write_file env s path txt = (Inl ValueError, s1)"
  using assms
  by (cases "os_path_split env path")
     (auto simp add: write_file_def is_dir_ref_def deref_def split: option.splits node.splits)

section \<open>The negative results of the operations\<close>

lemma not_dir_cases:
  "map_option node_type (deref s x) \<noteq> Some TDir \<longleftrightarrow>
     deref s x = None \<or> (\<exists>nm c md sz tx. deref s x = Some (File nm c md sz tx))"
proof (cases "deref s x")
  case None
  then show ?thesis by simp
next
  case (Some n)
  then show ?thesis by (cases n) auto
qed

lemma not_file_cases:
  "map_option node_type (deref s x) \<noteq> Some TFile \<longleftrightarrow>
     deref s x = None \<or> (\<exists>nm c md ch. deref s x = Some (Dir nm c md ch))"
proof (cases "deref s x")
  case None
  then show ?thesis by simp
next
  case (Some n)
  then show ?thesis by (cases n) auto
qed

lemma change_directory_failure:
  assumes "resolve_path env s path = (Inr x, s)"
    and "map_option node_type (deref s x) \<noteq> Some TDir"
  shows "change_directory env s path = (Inr False, s)"
  using assms unfolding not_dir_cases
  by (auto simp add: change_directory_def resolve_path_def)

lemma list_directory_failure:
  assumes "resolve_path env s path = (Inr x, s)"
    and "map_option node_type (deref s x) \<noteq> Some TDir"
  shows "list_directory env s path = (Inr [], s)"
  using assms unfolding not_dir_cases
  by (auto simp add: list_directory_def resolve_path_def)

lemma read_file_failure:
  assumes "resolve_path env s path = (Inr x, s)"
    and "map_option node_type (deref s x) \<noteq> Some TFile"
  shows "read_file env s path = (Inr None, s)"
  using assms unfolding not_file_cases
  by (auto simp add: read_file_def resolve_path_def)

lemma copy_file_failure:
  assumes "resolve_path env s source = (Inr x, s)"
    and "map_option node_type (deref s x) \<noteq> Some TFile"
  shows "copy_file env s source destination = (Inr False, s)"
  using read_file_failure [OF assms] by (simp add: copy_file_def)

lemma copy_file_write_raises:
  assumes "read_file env s source = (Inr (Some txt), s)"
    and "fst (write_file env s destination txt) = Inl e"
  shows "fst (copy_file env s source destination) = Inr False"
  using assms by (cases "write_file env s destination txt") (simp add: copy_file_def)

lemma child_at_cases:
  obtains "child_at s p name = None" "map_option node_type (deref s p) \<noteq> Some TDir"
  | nm c md content where "deref s p = Some (Dir nm c md content)"
      "child_at s p name = map_of content name"
proof (cases "deref s p")
  case None
  then show ?thesis using that(1) by (simp add: child_at_def)
next
  case (Some n)
  show ?thesis
  proof (cases n)
    case (File nm c md sz tx)
    with Some show ?thesis using that(1) by (simp add: child_at_def)
  next
    case (Dir nm c md content)
    with Some show ?thesis using that(2) by (simp add: child_at_def)
  qed
qed

lemma deref_Dir:
  assumes "deref s p = Some (Dir nm c md content)"
  obtains l where "p = Some l" "get_at (root s) l = Some (Dir nm c md content)"
  using assms by (cases p) (simp_all add: deref_def)

lemma deref_not_Dir:
  assumes "map_option node_type (deref s p) \<noteq> Some TDir"
  shows "p = None \<or> (\<exists>l. p = Some l \<and> get_at (root s) l = None) \<or>
         (\<exists>l nm c md sz tx. p = Some l \<and> get_at (root s) l = Some (File nm c md sz tx))"
  using assms unfolding not_dir_cases by (cases p) (auto simp add: deref_def)

lemma create_directory_failure:
  assumes "os_path_split env path = (dirname, basename)"
    and "resolve_path env s (or_dot dirname) = (Inr p, s)"
    and "\<not> is_valid_filename basename \<or> map_option node_type (deref s p) \<noteq> Some TDir \<or>
         child_at s p basename \<noteq> None"
  shows "create_directory env s path = (Inr False, s)"
proof (cases "is_valid_filename basename")
  case False
  with assms(1) show ?thesis by (simp add: create_directory_def)
next
  case True
  show ?thesis
  proof (cases rule: child_at_cases [of s p basename])
    case 1
    from deref_not_Dir [OF 1(2)] assms(1) assms(2) True show ?thesis
      by (auto simp add: create_directory_def resolve_path_def)
  next
    case (2 nm c md content)
    from 2(1) obtain l where l: "p = Some l" "get_at (root s) l = Some (Dir nm c md content)"
      by (rule deref_Dir)
    from assms(3) True 2 have "map_of content basename \<noteq> None" by simp
    with l assms(1) assms(2) True show ?thesis
      by (auto simp add: create_directory_def resolve_path_def)
  qed
qed

lemma remove_directory_failure:
  assumes "os_path_split env path = (dirname, basename)"
    and "resolve_path env s (or_dot dirname) = (Inr p, s)"
    and "\<forall>nm c md. child_at s p basename \<noteq> Some (Dir nm c md [])"
  shows "remove_directory env s path = (Inr False, s)"
proof (cases rule: child_at_cases [of s p basename])
  case 1
  from deref_not_Dir [OF 1(2)] assms(1) assms(2) show ?thesis
    by (auto simp add: remove_directory_def resolve_path_def)
next
  case (2 nm c md content)
  from 2(1) obtain l where l: "p = Some l" "get_at (root s) l = Some (Dir nm c md content)"
    by (rule deref_Dir)
  from assms(3) 2 have "\<forall>nm c md. map_of content basename \<noteq> Some (Dir nm c md [])" by simp
  with l assms(1) assms(2) show ?thesis
    by (auto simp add: remove_directory_def resolve_path_def split: option.splits node.splits)
qed

lemma delete_file_failure:
  assumes "os_path_split env path = (dirname, basename)"
    and "resolve_path env s (or_dot dirname) = (Inr p, s)"
    and "map_option node_type (child_at s p basename) \<noteq> Some TFile"
  shows "delete_file env s path = (Inr False, s)"
proof (cases rule: child_at_cases [of s p basename])
  case 1
  from deref_not_Dir [OF 1(2)] assms(1) assms(2) show ?thesis
    by (auto simp add: delete_file_def resolve_path_def)
next
  case (2 nm c md content)
  from 2(1) obtain l where l: "p = Some l" "get_at (root s) l = Some (Dir nm c md content)"
    by (rule deref_Dir)
  from assms(3) 2 have "map_option node_type (map_of content basename) \<noteq> Some TFile" by simp
  with l assms(1) assms(2) show ?thesis
    by (auto simp add: delete_file_def resolve_path_def split: option.splits node.splits)
qed

lemma rename_file_failure:
  assumes "os_path_split env path = (dirname, oldname)"
    and "resolve_path env s (or_dot dirname) = (Inr p, s)"
    and "\<not> is_valid_filename newname \<or> child_at s p oldname = None \<or> child_at s p newname \<noteq> None"
  shows "rename_file env s path newname = (Inr False, s)"
proof (cases "is_valid_filename newname")
  case False
  with assms(1) show ?thesis by (simp add: rename_file_def)
next
  case True
  show ?thesis
  proof (cases rule: child_at_cases [of s p oldname])
    case 1
    from deref_not_Dir [OF 1(2)] assms(1) assms(2) True show ?thesis
      by (auto simp add: rename_file_def resolve_path_def)
  next
    case (2 nm c md content)
    from 2(1) obtain l where l: "p = Some l" "get_at (root s) l = Some (Dir nm c md content)"
      by (rule deref_Dir)
    from 2(1) have "child_at s p newname = map_of content newname" by (simp add: child_at_def)
    with assms(3) True 2 have "map_of content oldname = None \<or> map_of content newname \<noteq> None"
      by simp
    with l assms(1) assms(2) True show ?thesis
      by (auto simp add: rename_file_def resolve_path_def split: option.splits)
  qed
qed

section \<open>Failures as results, and the exceptions of the write\<close>

text \<open>
  Claim C8, as the code has it. Let the current directory resolve to a node. Then
  resolution of a path and of its parent part does not raise, and with \<open>x\<close> the result
  for the path, \<open>p\<close> the result for the parent part and \<open>name\<close> the last component that
  \<open>os.path.split\<close> returns:
  \<^item> when \<open>x\<close> is absent or not a directory, \<open>change_directory\<close> returns \<open>False\<close> and
    \<open>list_directory\<close> returns the empty list;
  \<^item> when \<open>x\<close> is absent or not a file, \<open>read_file\<close> returns \<open>None\<close> and \<open>copy_file\<close>
    from the path returns \<open>False\<close>;
  \<^item> \<open>create_directory\<close> returns \<open>False\<close> when \<open>name\<close> is not valid, when \<open>p\<close> is absent
    or not a directory, and when \<open>p\<close> has an entry under \<open>name\<close>;
  \<^item> \<open>remove_directory\<close> returns \<open>False\<close> unless \<open>p\<close> is a directory whose entry under
    \<open>name\<close> is a directory without children;
  \<^item> \<open>delete_file\<close> returns \<open>False\<close> unless \<open>p\<close> is a directory whose entry under \<open>name\<close>
    is a file;
  \<^item> \<open>rename_file\<close> returns \<open>False\<close> when the new name is not valid, when \<open>p\<close> is absent
    or not a directory or has no entry under \<open>name\<close>, and when \<open>p\<close> has an entry under
    the new name;
  \<^item> \<open>copy_file\<close> returns \<open>False\<close> when the write to the destination raises;
  in each of these cases but the last the state is unchanged. None of these operations
  raises. \<open>write_file\<close> raises ValueError, without changing the state, when the file name
  is not valid; and it raises ValueError when the name is valid and the parent part of
  the path resolves to no node or to a node that is not a directory.
\<close>

theorem failures_are_results:
  assumes "fst (get_current_node env s) = Inr (Some lc)"
  shows "(\<exists>x. resolve_path env s path = (Inr x, s) \<and>
            (map_option node_type (deref s x) \<noteq> Some TDir \<longrightarrow>
               change_directory env s path = (Inr False, s) \<and>
               list_directory env s path = (Inr [], s)) \<and>
            (map_option node_type (deref s x) \<noteq> Some TFile \<longrightarrow>
               read_file env s path = (Inr None, s) \<and>
               copy_file env s path destination = (Inr False, s))) \<and>
         (\<exists>p. resolve_path env s (or_dot (fst (os_path_split env path))) = (Inr p, s) \<and>
            (\<not> is_valid_filename (snd (os_path_split env path)) \<or>
             map_option node_type (deref s p) \<noteq> Some TDir \<or>
             child_at s p (snd (os_path_split env path)) \<noteq> None \<longrightarrow>
               create_directory env s path = (Inr False, s)) \<and>
            ((\<forall>nm c md. child_at s p (snd (os_path_split env path)) \<noteq> Some (Dir nm c md [])) \<longrightarrow>
               remove_directory env s path = (Inr False, s)) \<and>
            (map_option node_type (child_at s p (snd (os_path_split env path))) \<noteq> Some TFile \<longrightarrow>
               delete_file env s path = (Inr False, s)) \<and>
            (\<not> is_valid_filename newname \<or>
             child_at s p (snd (os_path_split env path)) = None \<or>
             child_at s p newname \<noteq> None \<longrightarrow>
               rename_file env s path newname = (Inr False, s))) \<and>
         (\<forall>e. fst (write_file env s destination txt) = Inl e \<and>
              read_file env s path = (Inr (Some txt), s) \<longrightarrow>
              fst (copy_file env s path destination) = Inr False) \<and>
         (\<exists>b. fst (change_directory env s path) = Inr b) \<and>
         (\<exists>b. fst (create_directory env s path) = Inr b) \<and>
         (\<exists>b. fst (remove_directory env s path) = Inr b) \<and>
         (\<exists>b. fst (read_file env s path) = Inr b) \<and>
         (\<exists>b. fst (delete_file env s path) = Inr b) \<and>
         (\<exists>b. fst (copy_file env s path destination) = Inr b) \<and>
         (\<exists>b. fst (rename_file env s path newname) = Inr b) \<and>
         (\<exists>b. fst (list_directory env s path) = Inr b) \<and>
         (\<not> is_valid_filename (snd (os_path_split env path)) \<longrightarrow>
            write_file env s path txt = (Inl ValueError, s)) \<and>
         (\<forall>r s1. is_valid_filename (snd (os_path_split env path)) \<and>
            get_node_at_path env s (or_dot (fst (os_path_split env path))) True = (Inr r, s1) \<and>
            \<not> is_dir_ref s1 r \<longrightarrow>
            write_file env s path txt = (Inl ValueError, s1))"
proof -
  from assms have h: "cur_ref env s = Inr (Some lc)" by (simp add: get_current_node_eq)
  obtain dirname basename where sp: "os_path_split env path = (dirname, basename)"
    by (cases "os_path_split env path")
  from healthy_resolve [OF h, of path] obtain x where
    x: "resolve_path env s path = (Inr x, s)" by (auto simp add: resolve_path_def)
  from healthy_resolve [OF h, of "or_dot dirname"] obtain p where
    p: "resolve_path env s (or_dot dirname) = (Inr p, s)" by (auto simp add: resolve_path_def)
  have 1: "\<exists>x. resolve_path env s path = (Inr x, s) \<and>
            (map_option node_type (deref s x) \<noteq> Some TDir \<longrightarrow>
               change_directory env s path = (Inr False, s) \<and>
               list_directory env s path = (Inr [], s)) \<and>
            (map_option node_type (deref s x) \<noteq> Some TFile \<longrightarrow>
               read_file env s path = (Inr None, s) \<and>
               copy_file env s path destination = (Inr False, s))"
    using x change_directory_failure [OF x] list_directory_failure [OF x]
      read_file_failure [OF x] copy_file_failure [OF x, of destination]
    by blast
  have 2: "\<exists>p. resolve_path env s (or_dot (fst (os_path_split env path))) = (Inr p, s) \<and>
            (\<not> is_valid_filename (snd (os_path_split env path)) \<or>
             map_option node_type (deref s p) \<noteq> Some TDir \<or>
             child_at s p (snd (os_path_split env path)) \<noteq> None \<longrightarrow>
               create_directory env s path = (Inr False, s)) \<and>
            ((\<forall>nm c md. child_at s p (snd (os_path_split env path)) \<noteq> Some (Dir nm c md [])) \<longrightarrow>
               remove_directory env s path = (Inr False, s)) \<and>
            (map_option node_type (child_at s p (snd (os_path_split env path))) \<noteq> Some TFile \<longrightarrow>
               delete_file env s path = (Inr False, s)) \<and>
            (\<not> is_valid_filename newname \<or>
             child_at s p (snd (os_path_split env path)) = None \<or>
             child_at s p newname \<noteq> None \<longrightarrow>
               rename_file env s path newname = (Inr False, s))"
    unfolding sp fst_conv snd_conv
    using p create_directory_failure [OF sp p] remove_directory_failure [OF sp p]
      delete_file_failure [OF sp p] rename_file_failure [OF sp p, of newname]
    by blast
  have 3: "\<forall>e. fst (write_file env s destination txt) = Inl e \<and>
              read_file env s path = (Inr (Some txt), s) \<longrightarrow>
              fst (copy_file env s path destination) = Inr False"
    using copy_file_write_raises [of env s path "txt" destination] by blast
  from read_file_no_raise [OF h, of path] have rd: "\<exists>b. fst (read_file env s path) = Inr b"
    by auto
  note 4 = change_directory_no_raise [OF h, of path]
  note 5 = create_directory_no_raise [OF h, of path]
  note 6 = remove_directory_no_raise [OF h, of path]
  note 8 = delete_file_no_raise [OF h, of path]
  note 9 = copy_file_no_raise [OF h, of path destination]
  note 10 = rename_file_no_raise [OF h, of path newname]
  note 11 = list_directory_no_raise [OF h, of path]
  have 12: "\<not> is_valid_filename (snd (os_path_split env path)) \<longrightarrow>
            write_file env s path txt = (Inl ValueError, s)"
    using write_file_invalid_name [of env path s "txt"] by blast
  have 13: "\<forall>r s1. is_valid_filename (snd (os_path_split env path)) \<and>
            get_node_at_path env s (or_dot (fst (os_path_split env path))) True = (Inr r, s1) \<and>
            \<not> is_dir_ref s1 r \<longrightarrow>
            write_file env s path txt = (Inl ValueError, s1)"
    using write_file_no_parent [of env path s _ _ "txt"] by blast
  from 1 2 3 4 5 6 rd 8 9 10 11 12 13 show ?thesis by - (intro conjI, assumption+)
qed


theorem failures_are_results_witness:
  "fst (get_current_node nt_env (init_fs nt_env)) = Inr (Some []) \<and>
   resolve_path nt_env (init_fs nt_env) ''NOPE'' = (Inr None, init_fs nt_env) \<and>
   change_directory nt_env (init_fs nt_env) ''NOPE'' = (Inr False, init_fs nt_env) \<and>
   list_directory nt_env (init_fs nt_env) ''NOPE'' = (Inr [], init_fs nt_env) \<and>
   read_file nt_env (init_fs nt_env) ''NOPE'' = (Inr None, init_fs nt_env) \<and>
   copy_file nt_env (init_fs nt_env) ''NOPE'' ''X.TXT'' = (Inr False, init_fs nt_env) \<and>
   resolve_path nt_env (init_fs nt_env) (or_dot (fst (os_path_split nt_env ''DOS''))) =
     (Inr (Some []), init_fs nt_env) \<and>
   child_at (init_fs nt_env) (Some []) (snd (os_path_split nt_env ''DOS'')) =
     Some (Dir ''DOS'' 2 3 [(''README.TXT'', File ''README.TXT'' 4 5 177 readme_text)]) \<and>
   create_directory nt_env (init_fs nt_env) ''DOS'' = (Inr False, init_fs nt_env) \<and>
   remove_directory nt_env (init_fs nt_env) ''DOS'' = (Inr False, init_fs nt_env) \<and>
   delete_file nt_env (init_fs nt_env) ''DOS'' = (Inr False, init_fs nt_env) \<and>
   rename_file nt_env (init_fs nt_env) ''DOS'' ''DOS'' = (Inr False, init_fs nt_env) \<and>
   \<not> is_valid_filename (snd (os_path_split nt_env ''a*b'')) \<and>
   create_directory nt_env (init_fs nt_env) ''a*b'' = (Inr False, init_fs nt_env) \<and>
   write_file nt_env (init_fs nt_env) ''a*b'' ''x'' = (Inl ValueError, init_fs nt_env)"
proof -
  let ?s0 = "init_fs nt_env"
  note ev = eval_defs op_defs split_on_eval
  have a: "fst (get_current_node nt_env ?s0) = Inr (Some [])"
    by (simp add: ev del: split_on.simps(2))
  have r1: "resolve_path nt_env ?s0 ''NOPE'' = (Inr None, ?s0)"
    by (simp add: ev del: split_on.simps(2))
  from failures_are_results [OF a, where path = "''NOPE''" and destination = "''X.TXT''", THEN conjunct1]
  obtain x where
    x: "resolve_path nt_env ?s0 ''NOPE'' = (Inr x, ?s0)"
    and x1: "map_option node_type (deref ?s0 x) \<noteq> Some TDir \<longrightarrow>
               change_directory nt_env ?s0 ''NOPE'' = (Inr False, ?s0) \<and>
               list_directory nt_env ?s0 ''NOPE'' = (Inr [], ?s0)"
    and x2: "map_option node_type (deref ?s0 x) \<noteq> Some TFile \<longrightarrow>
               read_file nt_env ?s0 ''NOPE'' = (Inr None, ?s0) \<and>
               copy_file nt_env ?s0 ''NOPE'' ''X.TXT'' = (Inr False, ?s0)"
    by blast
  from x r1 have "x = None" by simp
  with x1 x2 have 1:
    "change_directory nt_env ?s0 ''NOPE'' = (Inr False, ?s0) \<and>
     list_directory nt_env ?s0 ''NOPE'' = (Inr [], ?s0) \<and>
     read_file nt_env ?s0 ''NOPE'' = (Inr None, ?s0) \<and>
     copy_file nt_env ?s0 ''NOPE'' ''X.TXT'' = (Inr False, ?s0)"
    by (simp add: deref_def)
  have sp: "os_path_split nt_env ''DOS'' = ([], ''DOS'')" by (simp add: eval_defs)
  have r2: "resolve_path nt_env ?s0 (or_dot (fst (os_path_split nt_env ''DOS''))) = (Inr (Some []), ?s0)"
    unfolding sp by (simp add: ev del: split_on.simps(2))
  have c: "child_at ?s0 (Some []) (snd (os_path_split nt_env ''DOS'')) =
     Some (Dir ''DOS'' 2 3 [(''README.TXT'', File ''README.TXT'' 4 5 177 readme_text)])"
    unfolding sp by (simp add: child_at_def eval_defs)
  from failures_are_results [OF a, where path = "''DOS''" and newname = "''DOS''",
      THEN conjunct2, THEN conjunct1]
  obtain p where
    p: "resolve_path nt_env ?s0 (or_dot (fst (os_path_split nt_env ''DOS''))) = (Inr p, ?s0)"
    and p1: "\<not> is_valid_filename (snd (os_path_split nt_env ''DOS'')) \<or>
             map_option node_type (deref ?s0 p) \<noteq> Some TDir \<or>
             child_at ?s0 p (snd (os_path_split nt_env ''DOS'')) \<noteq> None \<longrightarrow>
               create_directory nt_env ?s0 ''DOS'' = (Inr False, ?s0)"
    and p2: "(\<forall>nm c md. child_at ?s0 p (snd (os_path_split nt_env ''DOS'')) \<noteq> Some (Dir nm c md [])) \<longrightarrow>
               remove_directory nt_env ?s0 ''DOS'' = (Inr False, ?s0)"
    and p3: "map_option node_type (child_at ?s0 p (snd (os_path_split nt_env ''DOS''))) \<noteq> Some TFile \<longrightarrow>
               delete_file nt_env ?s0 ''DOS'' = (Inr False, ?s0)"
    and p4: "\<not> is_valid_filename ''DOS'' \<or>
             child_at ?s0 p (snd (os_path_split nt_env ''DOS'')) = None \<or>
             child_at ?s0 p ''DOS'' \<noteq> None \<longrightarrow>
               rename_file nt_env ?s0 ''DOS'' ''DOS'' = (Inr False, ?s0)"
    by blast
  from p r2 have pe: "p = Some []" by simp
  have c': "child_at ?s0 (Some []) ''DOS'' =
     Some (Dir ''DOS'' 2 3 [(''README.TXT'', File ''README.TXT'' 4 5 177 readme_text)])"
    using c sp by simp
  from p1 p2 p3 p4 have 2:
    "create_directory nt_env ?s0 ''DOS'' = (Inr False, ?s0) \<and>
     remove_directory nt_env ?s0 ''DOS'' = (Inr False, ?s0) \<and>
     delete_file nt_env ?s0 ''DOS'' = (Inr False, ?s0) \<and>
     rename_file nt_env ?s0 ''DOS'' ''DOS'' = (Inr False, ?s0)"
    unfolding pe c c' by simp
  have b: "\<not> is_valid_filename (snd (os_path_split nt_env ''a*b''))"
    by (simp add: eval_defs)
  from failures_are_results [OF a, where path = "''a*b''", THEN conjunct2, THEN conjunct1] b
  have 3: "create_directory nt_env ?s0 ''a*b'' = (Inr False, ?s0)" by blast
  from failures_are_results [OF a, of "''a*b''" _ _ "''x''"] b
  have 4: "write_file nt_env ?s0 ''a*b'' ''x'' = (Inl ValueError, ?s0)" by blast
  from a r1 1 r2 c 2 b 3 4 show ?thesis by simp
qed

theorem write_file_raises_counterexample:
  "\<not> is_valid_filename (snd (os_path_split nt_env ''a*b'')) \<and>
   write_file nt_env (init_fs nt_env) ''a*b'' ''x'' = (Inl ValueError, init_fs nt_env) \<and>
   is_valid_filename (snd (os_path_split nt_env (''NOPE'' @ [bs] @ ''f.txt''))) \<and>
   fst (get_node_at_path nt_env (init_fs nt_env) ''NOPE'' True) = Inr None \<and>
   write_file nt_env (init_fs nt_env) (''NOPE'' @ [bs] @ ''f.txt'') ''x'' = (Inl ValueError, init_fs nt_env)"
  by (simp add: eval_defs op_defs)

section \<open>Removing a directory\<close>

lemma map_entry_map_entry: "map_entry k g (map_entry k f ch) = map_entry k (g \<circ> f) ch"
  by (induction k f ch rule: map_entry.induct) auto

lemma update_at_update_at: "update_at (update_at r l f) l g = update_at r l (\<lambda>x. g (f x))"
proof (induction l arbitrary: r)
  case Nil
  then show ?case by simp
next
  case (Cons k ks)
  show ?case
  proof (cases r)
    case (File nm cr md sz tx)
    then show ?thesis by simp
  next
    case (Dir nm cr md ch)
    have "(\<lambda>c. update_at c ks g) \<circ> (\<lambda>c. update_at c ks f) = (\<lambda>c. update_at c ks (\<lambda>x. g (f x)))"
      by (rule ext) (simp only: o_apply Cons.IH)
    with Dir show ?thesis by (simp add: map_entry_map_entry)
  qed
qed

text \<open>The tree after one entry, an empty directory, has been deleted from its parent.\<close>

lemma get_at_entry_deleted:
  assumes "get_at r l = Some (Dir dn dc dm content)"
    and "map_of content b = Some (Dir en ec em [])"
  shows "get_at (update_at r l (set_modified now \<circ> del_child b)) m =
           (if m = l @ [b] then None
            else if m = l then Some (Dir dn dc now (AList.delete b content))
            else if take (length m) l = m
              then map_option (\<lambda>x. update_at x (drop (length m) l) (set_modified now \<circ> del_child b)) (get_at r m)
            else get_at r m)"
proof (cases "take (length l) m = l")
  case True
  then obtain k where m: "m = l @ k" by (metis append_take_drop_id)
  show ?thesis
  proof (cases k)
    case Nil
    with m assms show ?thesis by (simp add: get_at_update_at)
  next
    case (Cons k0 k')
    have pre: "take (length m) l \<noteq> m"
    proof
      assume "take (length m) l = m"
      then have "length (take (length m) l) = length m" by simp
      then have "length m \<le> length l" by simp
      with m Cons show False by simp
    qed
    show ?thesis
    proof (cases "k0 = b")
      case True
      have "get_at r m = (if k' = [] then Some (Dir en ec em []) else None)"
        using m Cons True assms by (cases k') (simp_all add: get_at_append)
      moreover have "get_at (update_at r l (set_modified now \<circ> del_child b)) m = None"
        using m Cons True assms by (simp add: get_at_update_at AList.delete_conv')
      ultimately show ?thesis using m Cons True pre by auto
    next
      case False
      have "get_at (update_at r l (set_modified now \<circ> del_child b)) m = get_at r m"
        using m Cons False assms by (simp add: get_at_update_at get_at_append AList.delete_conv')
      with m Cons False pre show ?thesis by auto
    qed
  qed
next
  case False
  then have "m \<noteq> l @ [b]" "m \<noteq> l" by auto
  with False show ?thesis by (simp add: get_at_update_at)
qed

lemma entry_deleted_kept:
  assumes "get_at r l = Some (Dir dn dc dm content)"
    and "map_of content b = Some (Dir en ec em [])"
    and "m \<noteq> l @ [b]"
  shows "(get_at (update_at r l (set_modified now \<circ> del_child b)) m = None \<longleftrightarrow> get_at r m = None) \<and>
         (\<forall>nm c md sz tx. get_at r m = Some (File nm c md sz tx) \<longrightarrow>
            get_at (update_at r l (set_modified now \<circ> del_child b)) m = Some (File nm c md sz tx)) \<and>
         (\<forall>nm c md ch. get_at r m = Some (Dir nm c md ch) \<longrightarrow>
            (\<exists>md' ch'. get_at (update_at r l (set_modified now \<circ> del_child b)) m = Some (Dir nm c md' ch')))"
proof (cases "m = l")
  case True
  with assms show ?thesis by (simp add: get_at_entry_deleted [OF assms(1) assms(2)])
next
  case False
  note nl = this
  show ?thesis
  proof (cases "take (length m) l = m")
    case False
    with nl assms(3) show ?thesis by (simp add: get_at_entry_deleted [OF assms(1) assms(2)])
  next
    case True
    then have l: "l = m @ drop (length m) l" by (metis append_take_drop_id)
    have d: "drop (length m) l \<noteq> []" using l nl by auto
    from assms(1) l have e: "get_at r (m @ drop (length m) l) \<noteq> None" by simp
    then obtain n where n: "get_at r m = Some n" using get_at_prefix by fastforce
    have "get_at r (m @ drop (length m) l) = get_at n (drop (length m) l)"
      using n by (simp only: get_at_append option.simps)
    with e have "get_at n (drop (length m) l) \<noteq> None" by simp
    with d obtain nm c md ch where dir: "n = Dir nm c md ch"
      by (cases n; cases "drop (length m) l") auto
    obtain k ks where ks: "drop (length m) l = k # ks" using d by (cases "drop (length m) l") auto
    have "get_at (update_at r l (set_modified now \<circ> del_child b)) m =
            Some (update_at n (drop (length m) l) (set_modified now \<circ> del_child b))"
      using True nl assms(3) n by (simp add: get_at_entry_deleted [OF assms(1) assms(2)])
    with n dir ks show ?thesis by simp
  qed
qed

lemma remove_directory_True:
  assumes "remove_directory env s path = (Inr True, s')"
  shows "\<exists>l b dn dcr dmd pn pc pm content.
           addressed env s path = Some (l, b, Dir dn dcr dmd []) \<and>
           get_at (root s) l = Some (Dir pn pc pm content) \<and>
           map_of content b = Some (Dir dn dcr dmd []) \<and>
           root s' = update_at (update_at (root s) l (del_child b)) l
                       (set_modified (clock env (ticks s))) \<and>
           current_path s' = current_path s"
proof -
  obtain r where r: "get_node_at_path env s (or_dot (fst (os_path_split env path))) False = (r, s)"
    using get_node_at_path_no_create_eq by blast
  from assms r show ?thesis
    by (auto simp add: remove_directory_def addressed_def time_time_def
        split: prod.splits sum.splits option.splits node.splits if_splits)
qed

lemma remove_directory_not_True:
  assumes "remove_directory env s path = (r, s')" and "r \<noteq> Inr True"
  shows "s' = s"
proof -
  obtain x where x: "get_node_at_path env s (or_dot (fst (os_path_split env path))) False = (x, s)"
    using get_node_at_path_no_create_eq by blast
  from assms x show ?thesis
    by (auto simp add: remove_directory_def time_time_def
        split: prod.splits sum.splits option.splits node.splits if_splits)
qed

lemma remove_directory_keeps:
  assumes "remove_directory env s path = (r, s')"
  shows "(\<forall>m nm c md sz tx. get_at (root s) m = Some (File nm c md sz tx) \<longrightarrow>
            get_at (root s') m = Some (File nm c md sz tx)) \<and>
         (\<forall>m nm c md ch. get_at (root s) m = Some (Dir nm c md ch) \<and> ch \<noteq> [] \<longrightarrow>
            (\<exists>md' ch'. get_at (root s') m = Some (Dir nm c md' ch')))"
proof (cases "r = Inr True")
  case False
  with assms have "s' = s" by (rule remove_directory_not_True)
  then show ?thesis by simp
next
  case True
  with assms have "remove_directory env s path = (Inr True, s')" by simp
  from remove_directory_True [OF this] obtain l b dn dcr dmd pn pc pm content where
    h: "get_at (root s) l = Some (Dir pn pc pm content)"
       "map_of content b = Some (Dir dn dcr dmd [])"
       "root s' = update_at (update_at (root s) l (del_child b)) l (set_modified (clock env (ticks s)))"
    by blast
  have rs: "root s' = update_at (root s) l (set_modified (clock env (ticks s)) \<circ> del_child b)"
    using h(3) by (simp add: update_at_update_at comp_def)
  have e: "get_at (root s) (l @ [b]) = Some (Dir dn dcr dmd [])"
    using h(1) h(2) by (simp add: get_at_append)
  show ?thesis
  proof (intro conjI allI impI)
    fix m nm c md sz tx
    assume a: "get_at (root s) m = Some (File nm c md sz tx)"
    with e have "m \<noteq> l @ [b]" by auto
    from entry_deleted_kept [OF h(1) h(2) this, of "clock env (ticks s)"] a
    show "get_at (root s') m = Some (File nm c md sz tx)" unfolding rs by blast
  next
    fix m nm c md ch
    assume a: "get_at (root s) m = Some (Dir nm c md ch) \<and> ch \<noteq> []"
    with e have "m \<noteq> l @ [b]" by auto
    from entry_deleted_kept [OF h(1) h(2) this, of "clock env (ticks s)"] a
    show "\<exists>md' ch'. get_at (root s') m = Some (Dir nm c md' ch')" unfolding rs by blast
  qed
qed

text \<open>
  When the split agrees with the parser, the entry that \<open>remove_directory\<close> looks up in
  the parent is the node the path resolves to.
\<close>

lemma remove_directory_resolved:
  assumes "fst (resolve_path env s path) = Inr (Some l)"
    and "get_at (root s) l = Some (Dir nm c md ch)" and "ch \<noteq> []"
    and "os_path_split env path = (dirname, basename)"
    and "segments (or_dot dirname) = (a, ks)"
    and "segments path = (a, ks @ [basename])"
  shows "remove_directory env s path = (Inr False, s)"
proof -
  from assms(5) have a: "anchor_of (or_dot dirname) = a" "nonempty (walk_parts (or_dot dirname)) = ks"
    by (simp_all add: segments_def)
  from assms(6) have p: "anchor_of path = a" "nonempty (walk_parts path) = ks @ [basename]"
    by (simp_all add: segments_def)
  from assms(1) p obtain la where
    la: "anchor_ref env s a = Inr (Some la)" "l = la @ ks @ [basename]"
    by (auto simp add: resolve_path_def resolve_eq lookup_def
        split: sum.splits option.splits if_splits)
  from assms(2) la(2) have e: "get_at (root s) ((la @ ks) @ [basename]) = Some (Dir nm c md ch)"
    by simp
  then have "get_at (root s) (la @ ks) \<noteq> None"
    using get_at_prefix [of "root s" "la @ ks" "[basename]"] by simp
  then obtain pn pc pm content where
    par: "get_at (root s) (la @ ks) = Some (Dir pn pc pm content)"
         "map_of content basename = Some (Dir nm c md ch)"
    using e by (auto simp add: get_at_append split: option.splits node.splits)
  have res: "get_node_at_path env s (or_dot dirname) False = (Inr (Some (la @ ks)), s)"
    using la(1) a par(1) by (simp add: resolve_eq lookup_def)
  from res par assms(3) assms(4) show ?thesis
    by (simp add: remove_directory_def)
qed


text \<open>
  Claim C5, as the code has it. \<open>remove_directory\<close> does not look at the node its path
  resolves to: it removes the entry that the parent part of the path holds under the
  name that \<open>os.path.split\<close> returns. For every path and every state:
  \<^item> when it returns \<open>True\<close>, that entry was a directory with no children; the new tree
    is the old one with that one entry deleted from its parent and the parent's
    modified time set; no node is at the entry's location afterwards, and every other
    location holds a node afterwards exactly when it did before;
  \<^item> when it does not return \<open>True\<close>, the state is unchanged;
  \<^item> when the parent part resolves and that entry is anything but a directory with no
    children (no entry, a file, a directory with a child, or a parent that is no
    directory), it returns \<open>False\<close>;
  \<^item> every file stays as it was, and every directory with at least one child stays a
    directory with its name and creation time: removal is never recursive;
  \<^item> when the current directory resolves to a node, it does not raise.

  Let the path resolve to a directory with at least one child. Then that directory is
  still in the tree after the call. If moreover \<open>os.path.split\<close> cuts the path into a
  parent part and a name such that the path walks, from the same anchor, the segments
  of the parent part and then the name, the call returns \<open>False\<close> and leaves the state
  unchanged.
\<close>

theorem remove_directory_not_recursive:
  assumes "remove_directory env s path = (r, s')"
  shows "(r = Inr True \<longrightarrow>
            (\<exists>l b dn dcr dmd.
               addressed env s path = Some (l, b, Dir dn dcr dmd []) \<and>
               root s' = update_at (update_at (root s) l (del_child b)) l
                           (set_modified (clock env (ticks s))) \<and>
               current_path s' = current_path s \<and>
               get_at (root s') (l @ [b]) = None \<and>
               (\<forall>m. m \<noteq> l @ [b] \<longrightarrow> (get_at (root s') m = None \<longleftrightarrow> get_at (root s) m = None)))) \<and>
         (r \<noteq> Inr True \<longrightarrow> s' = s) \<and>
         (\<forall>m nm c md sz tx. get_at (root s) m = Some (File nm c md sz tx) \<longrightarrow>
            get_at (root s') m = Some (File nm c md sz tx)) \<and>
         (\<forall>m nm c md ch. get_at (root s) m = Some (Dir nm c md ch) \<and> ch \<noteq> [] \<longrightarrow>
            (\<exists>md' ch'. get_at (root s') m = Some (Dir nm c md' ch'))) \<and>
         (\<forall>lc. fst (get_current_node env s) = Inr (Some lc) \<longrightarrow> (\<exists>b. r = Inr b)) \<and>
         (\<forall>l nm c md ch.
            fst (resolve_path env s path) = Inr (Some l) \<and>
            get_at (root s) l = Some (Dir nm c md ch) \<and> ch \<noteq> [] \<longrightarrow>
            (\<exists>md' ch'. get_at (root s') l = Some (Dir nm c md' ch')) \<and>
            (\<forall>dirname basename a ks.
               os_path_split env path = (dirname, basename) \<and>
               segments (or_dot dirname) = (a, ks) \<and>
               segments path = (a, ks @ [basename]) \<longrightarrow>
               r = Inr False \<and> s' = s)) \<and>
         (\<forall>p. resolve_path env s (or_dot (fst (os_path_split env path))) = (Inr p, s) \<and>
              (\<forall>nm c md. child_at s p (snd (os_path_split env path)) \<noteq> Some (Dir nm c md [])) \<longrightarrow>
              r = Inr False \<and> s' = s)"
proof -
  have 1: "r = Inr True \<longrightarrow>
            (\<exists>l b dn dcr dmd.
               addressed env s path = Some (l, b, Dir dn dcr dmd []) \<and>
               root s' = update_at (update_at (root s) l (del_child b)) l
                           (set_modified (clock env (ticks s))) \<and>
               current_path s' = current_path s \<and>
               get_at (root s') (l @ [b]) = None \<and>
               (\<forall>m. m \<noteq> l @ [b] \<longrightarrow> (get_at (root s') m = None \<longleftrightarrow> get_at (root s) m = None)))"
  proof
    assume "r = Inr True"
    with assms have "remove_directory env s path = (Inr True, s')" by simp
    from remove_directory_True [OF this] obtain l b dn dcr dmd pn pc pm content where
      h: "addressed env s path = Some (l, b, Dir dn dcr dmd [])"
         "get_at (root s) l = Some (Dir pn pc pm content)"
         "map_of content b = Some (Dir dn dcr dmd [])"
         "root s' = update_at (update_at (root s) l (del_child b)) l (set_modified (clock env (ticks s)))"
         "current_path s' = current_path s"
      by blast
    have rs: "root s' = update_at (root s) l (set_modified (clock env (ticks s)) \<circ> del_child b)"
      using h(4) by (simp add: update_at_update_at comp_def)
    have gone: "get_at (root s') (l @ [b]) = None"
      unfolding rs by (simp add: get_at_entry_deleted [OF h(2) h(3)])
    have others: "\<forall>m. m \<noteq> l @ [b] \<longrightarrow> (get_at (root s') m = None \<longleftrightarrow> get_at (root s) m = None)"
      unfolding rs using entry_deleted_kept [OF h(2) h(3)] by blast
    from h(1) h(4) h(5) gone others show
      "\<exists>l b dn dcr dmd.
               addressed env s path = Some (l, b, Dir dn dcr dmd []) \<and>
               root s' = update_at (update_at (root s) l (del_child b)) l
                           (set_modified (clock env (ticks s))) \<and>
               current_path s' = current_path s \<and>
               get_at (root s') (l @ [b]) = None \<and>
               (\<forall>m. m \<noteq> l @ [b] \<longrightarrow> (get_at (root s') m = None \<longleftrightarrow> get_at (root s) m = None))"
      by blast
  qed
  have 2: "r \<noteq> Inr True \<longrightarrow> s' = s"
    using remove_directory_not_True [OF assms] by blast
  note 3 = remove_directory_keeps [OF assms, THEN conjunct1]
  note 4 = remove_directory_keeps [OF assms, THEN conjunct2]
  have 5: "\<forall>lc. fst (get_current_node env s) = Inr (Some lc) \<longrightarrow> (\<exists>b. r = Inr b)"
  proof (intro allI impI)
    fix lc
    assume "fst (get_current_node env s) = Inr (Some lc)"
    then have "cur_ref env s = Inr (Some lc)" by (simp add: get_current_node_eq)
    from remove_directory_no_raise [OF this, of path] assms show "\<exists>b. r = Inr b" by simp
  qed
  have 6: "\<forall>l nm c md ch.
            fst (resolve_path env s path) = Inr (Some l) \<and>
            get_at (root s) l = Some (Dir nm c md ch) \<and> ch \<noteq> [] \<longrightarrow>
            (\<exists>md' ch'. get_at (root s') l = Some (Dir nm c md' ch')) \<and>
            (\<forall>dirname basename a ks.
               os_path_split env path = (dirname, basename) \<and>
               segments (or_dot dirname) = (a, ks) \<and>
               segments path = (a, ks @ [basename]) \<longrightarrow>
               r = Inr False \<and> s' = s)"
  proof (intro allI impI conjI)
    fix l nm c md ch
    assume a: "fst (resolve_path env s path) = Inr (Some l) \<and>
               get_at (root s) l = Some (Dir nm c md ch) \<and> ch \<noteq> []"
    with 4 show "\<exists>md' ch'. get_at (root s') l = Some (Dir nm c md' ch')" by blast
  next
    fix l nm c md ch dirname basename a ks
    assume a: "fst (resolve_path env s path) = Inr (Some l) \<and>
               get_at (root s) l = Some (Dir nm c md ch) \<and> ch \<noteq> []"
      and b: "os_path_split env path = (dirname, basename) \<and>
               segments (or_dot dirname) = (a, ks) \<and>
               segments path = (a, ks @ [basename])"
    have "remove_directory env s path = (Inr False, s)"
      using a b remove_directory_resolved [of env s path l nm c md ch dirname basename a ks]
      by blast
    with assms show "r = Inr False" "s' = s" by simp_all
  qed
  have 7: "\<forall>p. resolve_path env s (or_dot (fst (os_path_split env path))) = (Inr p, s) \<and>
              (\<forall>nm c md. child_at s p (snd (os_path_split env path)) \<noteq> Some (Dir nm c md [])) \<longrightarrow>
              r = Inr False \<and> s' = s"
  proof (intro allI impI)
    fix p
    assume a: "resolve_path env s (or_dot (fst (os_path_split env path))) = (Inr p, s) \<and>
              (\<forall>nm c md. child_at s p (snd (os_path_split env path)) \<noteq> Some (Dir nm c md []))"
    have sp: "os_path_split env path = (fst (os_path_split env path), snd (os_path_split env path))"
      by simp
    from a have "remove_directory env s path = (Inr False, s)"
      using remove_directory_failure [OF sp, of s p] by blast
    with assms show "r = Inr False \<and> s' = s" by simp
  qed
  from 1 2 3 4 5 6 7 show ?thesis by - (intro conjI, assumption+)
qed


theorem remove_directory_not_recursive_witness:
  "fst (resolve_path nt_env (init_fs nt_env) ''DOS'') = Inr (Some [''DOS'']) \<and>
   get_at (root (init_fs nt_env)) [''DOS''] =
     Some (Dir ''DOS'' 2 3 [(''README.TXT'', File ''README.TXT'' 4 5 177 readme_text)]) \<and>
   os_path_split nt_env ''DOS'' = ([], ''DOS'') \<and>
   segments (or_dot []) = (FromCurrent, []) \<and>
   segments ''DOS'' = (FromCurrent, [] @ [''DOS'']) \<and>
   remove_directory nt_env (init_fs nt_env) ''DOS'' = (Inr False, init_fs nt_env) \<and>
   resolve_path nt_env (init_fs nt_env) ''.'' = (Inr (Some []), init_fs nt_env) \<and>
   os_path_split nt_env ''.'' = ([], ''.'') \<and>
   child_at (init_fs nt_env) (Some []) ''.'' = None \<and>
   remove_directory nt_env (init_fs nt_env) ''.'' = (Inr False, init_fs nt_env) \<and>
   get_at (root (snd (create_directory nt_env (init_fs nt_env) ''NEWDIR''))) [''NEWDIR''] =
     Some (Dir ''NEWDIR'' 6 7 []) \<and>
   fst (remove_directory nt_env (snd (create_directory nt_env (init_fs nt_env) ''NEWDIR'')) ''NEWDIR'') =
     Inr True \<and>
   get_at (root (snd (remove_directory nt_env
       (snd (create_directory nt_env (init_fs nt_env) ''NEWDIR'')) ''NEWDIR''))) [''DOS'', ''README.TXT''] =
     Some (File ''README.TXT'' 4 5 177 readme_text) \<and>
   get_at (root (snd (remove_directory nt_env
       (snd (create_directory nt_env (init_fs nt_env) ''NEWDIR'')) ''NEWDIR''))) [''DOS''] \<noteq> None"
proof -
  let ?s0 = "init_fs nt_env"
  let ?s1 = "snd (create_directory nt_env ?s0 ''NEWDIR'')"
  note ev = eval_defs op_defs split_on_eval
  note seg_defs = segments_def anchor_of_def walk_parts_def is_rooted_def nonempty_def
  have a: "fst (resolve_path nt_env ?s0 ''DOS'') = Inr (Some [''DOS''])"
    by (simp add: ev del: split_on.simps(2))
  have b: "get_at (root ?s0) [''DOS''] =
     Some (Dir ''DOS'' 2 3 [(''README.TXT'', File ''README.TXT'' 4 5 177 readme_text)])"
    by (simp add: eval_defs)
  have c: "os_path_split nt_env ''DOS'' = ([], ''DOS'')"
    by (simp add: eval_defs)
  have d: "segments (or_dot []) = (FromCurrent, [])"
    by (simp add: ev seg_defs del: split_on.simps(2))
  have e: "segments ''DOS'' = (FromCurrent, [] @ [''DOS''])"
    by (simp add: ev seg_defs del: split_on.simps(2))
  have f: "remove_directory nt_env ?s0 ''DOS'' =
             (fst (remove_directory nt_env ?s0 ''DOS''), snd (remove_directory nt_env ?s0 ''DOS''))"
    by simp
  have ne: "[(''README.TXT'', File ''README.TXT'' (4::nat) 5 177 readme_text)] \<noteq> []" by simp
  note h = remove_directory_not_recursive [OF f]
  note h6 = h [THEN conjunct2, THEN conjunct2, THEN conjunct2, THEN conjunct2, THEN conjunct2,
               THEN conjunct1, rule_format, OF conjI [OF a conjI [OF b ne]], THEN conjunct2,
               rule_format, OF conjI [OF c conjI [OF d e]]]
  from h6 have 1: "remove_directory nt_env ?s0 ''DOS'' = (Inr False, ?s0)"
    using f by simp
  have d1: "resolve_path nt_env ?s0 ''.'' = (Inr (Some []), ?s0)"
    by (simp add: ev del: split_on.simps(2))
  have d2: "os_path_split nt_env ''.'' = ([], ''.'')"
    by (simp add: eval_defs)
  have d3: "child_at ?s0 (Some []) ''.'' = None"
    by (simp add: child_at_def eval_defs)
  have d4: "resolve_path nt_env ?s0 (or_dot (fst (os_path_split nt_env ''.''))) = (Inr (Some []), ?s0) \<and>
            (\<forall>nm c md. child_at ?s0 (Some []) (snd (os_path_split nt_env ''.'')) \<noteq> Some (Dir nm c md []))"
    using d1 d3 unfolding d2 by (simp add: or_dot_def)
  have fd: "remove_directory nt_env ?s0 ''.'' =
             (fst (remove_directory nt_env ?s0 ''.''), snd (remove_directory nt_env ?s0 ''.''))"
    by simp
  from remove_directory_not_recursive [OF fd, THEN conjunct2, THEN conjunct2, THEN conjunct2,
      THEN conjunct2, THEN conjunct2, THEN conjunct2, rule_format, OF d4]
  have d5: "remove_directory nt_env ?s0 ''.'' = (Inr False, ?s0)"
    using fd by simp
  have g: "get_at (root ?s1) [''NEWDIR''] = Some (Dir ''NEWDIR'' 6 7 [])"
    by (simp add: ev del: split_on.simps(2))
  have t: "fst (remove_directory nt_env ?s1 ''NEWDIR'') = Inr True"
    by (simp add: ev AList.delete_eq del: split_on.simps(2))
  have f': "remove_directory nt_env ?s1 ''NEWDIR'' =
             (fst (remove_directory nt_env ?s1 ''NEWDIR''), snd (remove_directory nt_env ?s1 ''NEWDIR''))"
    by simp
  have k: "get_at (root ?s1) [''DOS'', ''README.TXT''] = Some (File ''README.TXT'' 4 5 177 readme_text)"
    by (simp add: ev del: split_on.simps(2))
  have k': "get_at (root ?s1) [''DOS''] =
     Some (Dir ''DOS'' 2 3 [(''README.TXT'', File ''README.TXT'' 4 5 177 readme_text)]) \<and>
     [(''README.TXT'', File ''README.TXT'' (4::nat) 5 177 readme_text)] \<noteq> []"
    by (simp add: ev del: split_on.simps(2))
  note h' = remove_directory_not_recursive [OF f']
  from h' [THEN conjunct2, THEN conjunct2, THEN conjunct1, rule_format, OF k]
  have 2: "get_at (root (snd (remove_directory nt_env ?s1 ''NEWDIR''))) [''DOS'', ''README.TXT''] =
     Some (File ''README.TXT'' 4 5 177 readme_text)" .
  from h' [THEN conjunct2, THEN conjunct2, THEN conjunct2, THEN conjunct1, rule_format, OF k']
  have 3: "get_at (root (snd (remove_directory nt_env ?s1 ''NEWDIR''))) [''DOS''] \<noteq> None"
    by auto
  from a b c d e 1 d1 d2 d3 d5 g t 2 3 show ?thesis by - (intro conjI, assumption+)
qed

theorem remove_directory_other_entry_counterexample:
  "(let s1 = snd (create_directory nt_env (init_fs nt_env) ''E'') in
    os_path_split nt_env ''C:E'' = (''C:'', ''E'') \<and>
    parse_path ''C:E'' = [''C:''] \<and>
    fst (resolve_path nt_env s1 ''C:E'') = Inr (Some []) \<and>
    get_at (root s1) [] =
      Some (Dir ''C:'' 0 8
        [(''DOS'', Dir ''DOS'' 2 3 [(''README.TXT'', File ''README.TXT'' 4 5 177 readme_text)]),
         (''E'', Dir ''E'' 6 7 [])]) \<and>
    fst (remove_directory nt_env s1 ''C:E'') = Inr True \<and>
    get_at (root (snd (remove_directory nt_env s1 ''C:E''))) [''E''] = None \<and>
    root (snd (remove_directory nt_env s1 ''C:E'')) \<noteq> root s1) \<and>
   (let s1 = snd (write_file posix_env (init_fs posix_env) ''DOS/./B/f.txt'' ''hi'');
        s2 = snd (change_directory posix_env s1 ''DOS'')
    in os_path_split posix_env ''.'' = ([], ''.'') \<and>
       fst (resolve_path posix_env s2 ''.'') = Inr (Some [''DOS'']) \<and>
       get_at (root s2) [''DOS''] =
         Some (Dir ''DOS'' 2 3
           [(''README.TXT'', File ''README.TXT'' 4 5 177 readme_text), (''.'', Dir ''.'' 6 7 [])]) \<and>
       fst (remove_directory posix_env s2 ''.'') = Inr True \<and>
       get_at (root (snd (remove_directory posix_env s2 ''.''))) [''DOS'', ''.''] = None \<and>
       root (snd (remove_directory posix_env s2 ''.'')) \<noteq> root s2)"
  by (simp add: eval_defs op_defs Let_def AList.delete_eq split_on_eval del: split_on.simps(2))

section \<open>The current directory after a change with a lower-case drive letter\<close>

text \<open>
  Claim C4 at the input \<open>c:\<close>, backslash, \<open>DOS\<close> in the initial state. The current directory resolves to
  the root before the call. The call returns \<open>True\<close>: the parser writes the drive in upper
  case, so the path resolves to the directory DOS. The path itself does not start with
  \<open>C:\<close>, so the relative branch appends every parsed segment, the drive included, and
  the new current-directory sequence resolves to no node.
\<close>

theorem change_directory_lowercase_drive:
  "fst (get_current_node env (init_fs env)) = Inr (Some []) \<and>
   fst (resolve_path env (init_fs env) (''c:'' @ [bs] @ ''DOS'')) = Inr (Some [''DOS'']) \<and>
   change_directory env (init_fs env) (''c:'' @ [bs] @ ''DOS'') =
     (Inr True, (init_fs env)\<lparr>current_path := [''C:'', ''C:'', ''DOS'']\<rparr>) \<and>
   fst (get_current_node env ((init_fs env)\<lparr>current_path := [''C:'', ''C:'', ''DOS'']\<rparr>)) = Inr None"
  by (simp add: eval_defs op_defs)

section \<open>Listing the root\<close>

text \<open>
  Claim C6 at the path \<open>.\<close> in the initial state, where the current directory is the
  root. The listing has the \<open>.\<close> entry, then a \<open>..\<close> entry with the root's own times,
  then the entry of DOS: the \<open>..\<close> entry is left out only when the path string is \<open>C:\<close>,
  with or without one backslash after it, not whenever the directory listed is the root.
\<close>

theorem list_directory_root_has_dotdot:
  "fst (get_node_at_path env (init_fs env) ''.'' False) = Inr (Some []) \<and>
   list_directory env (init_fs env) ''.'' =
     (Inr [pseudo_entry ''.'' (clock env 0) (clock env 1),
           pseudo_entry ''..'' (clock env 0) (clock env 1),
           \<lparr>entry_name = ''DOS'', entry_type = TDir, entry_size = 0,
            entry_created = clock env 2, entry_modified = clock env 3\<rparr>],
      init_fs env)"
  by (simp add: eval_defs op_defs)

section \<open>What posixpath.split returns\<close>

lemma all_same_replicate: "(\<forall>x \<in> set ys. x = c) \<Longrightarrow> ys = replicate (length ys) c"
  by (induction ys) auto

lemma rev_dropWhile_takeWhile:
  "rev (dropWhile P (rev p)) @ rev (takeWhile P (rev p)) = p"
proof -
  have "rev (takeWhile P (rev p) @ dropWhile P (rev p)) = p" by simp
  then show ?thesis by (simp only: rev_append)
qed

lemma rstrip_decompose:
  "\<exists>k. h = rstrip [c] h @ replicate k c \<and> (rstrip [c] h = [] \<or> last (rstrip [c] h) \<noteq> c)"
proof -
  let ?P = "\<lambda>x. x \<in> set [c]"
  have 1: "rstrip [c] h @ rev (takeWhile ?P (rev h)) = h"
    unfolding rstrip_def by (rule rev_dropWhile_takeWhile)
  have "\<forall>x \<in> set (rev (takeWhile ?P (rev h))). x = c"
    using set_takeWhileD by fastforce
  then have 2: "rev (takeWhile ?P (rev h)) = replicate (length (rev (takeWhile ?P (rev h)))) c"
    by (rule all_same_replicate)
  have 3: "rstrip [c] h = [] \<or> last (rstrip [c] h) \<noteq> c"
  proof (cases "dropWhile ?P (rev h) = []")
    case True
    then show ?thesis by (simp add: rstrip_def)
  next
    case False
    then have "\<not> ?P (hd (dropWhile ?P (rev h)))" by (rule hd_dropWhile)
    with False show ?thesis by (simp add: rstrip_def last_rev)
  qed
  from 1 2 have "h = rstrip [c] h @ replicate (length (rev (takeWhile ?P (rev h)))) c"
    by simp
  with 3 show ?thesis by blast
qed

lemma posixpath_split_cases:
  assumes "posixpath_split p = (d, b)"
  obtains "d = []" and "p = b" and "CHR ''/'' \<notin> set b"
  | m where "d = replicate (Suc m) (CHR ''/'')" and "p = d @ b" and "CHR ''/'' \<notin> set b"
  | k where "d \<noteq> []" and "p = d @ replicate (Suc k) (CHR ''/'') @ b" and "CHR ''/'' \<notin> set b"
proof -
  define h where "h = rev (dropWhile (\<lambda>c. c \<noteq> CHR ''/'') (rev p))"
  define t where "t = rev (takeWhile (\<lambda>c. c \<noteq> CHR ''/'') (rev p))"
  have p: "p = h @ t" unfolding h_def t_def by (simp only: rev_dropWhile_takeWhile)
  have t: "CHR ''/'' \<notin> set t" unfolding t_def using set_takeWhileD by fastforce
  from assms have e: "(if h \<noteq> [] \<and> h \<noteq> replicate (length h) (CHR ''/'')
                          then rstrip ''/'' h else h, t) = (d, b)"
    unfolding posixpath_split_def Let_def h_def t_def .
  then have b: "b = t" by simp
  from e have d: "d = (if h \<noteq> [] \<and> h \<noteq> replicate (length h) (CHR ''/'')
                          then rstrip ''/'' h else h)"
    by simp
  have lh: "h \<noteq> [] \<Longrightarrow> last h = CHR ''/''"
  proof -
    assume "h \<noteq> []"
    then have ne: "dropWhile (\<lambda>c. c \<noteq> CHR ''/'') (rev p) \<noteq> []" by (simp add: h_def)
    then have "\<not> (hd (dropWhile (\<lambda>c. c \<noteq> CHR ''/'') (rev p)) \<noteq> CHR ''/'')" by (rule hd_dropWhile)
    with ne show ?thesis by (simp add: h_def last_rev)
  qed
  show ?thesis
  proof (cases "h = []")
    case True
    with d p b t show ?thesis using that(1) by simp
  next
    case False
    note hne = this
    show ?thesis
    proof (cases "h = replicate (length h) (CHR ''/'')")
      case True
      from hne obtain m where m: "length h = Suc m" by (cases h) auto
      from True hne d have dh: "d = h" by simp
      from True m have "h = replicate (Suc m) (CHR ''/'')" by simp
      with dh have 1: "d = replicate (Suc m) (CHR ''/'')" by simp
      have 2: "p = d @ b" using p b dh by simp
      from 1 2 t b show ?thesis using that(2) by blast
    next
      case False
      with hne d have dr: "d = rstrip ''/'' h" by simp
      from rstrip_decompose [of h "CHR ''/''"] dr obtain k where
        k: "h = d @ replicate k (CHR ''/'')" "d = [] \<or> last d \<noteq> CHR ''/''"
        by auto
      have dne: "d \<noteq> []"
      proof
        assume e: "d = []"
        have "replicate k (CHR ''/'') = replicate (length (replicate k (CHR ''/''))) (CHR ''/'')"
          by simp
        with k(1) e have "h = replicate (length h) (CHR ''/'')" by simp
        with False show False by simp
      qed
      have "k \<noteq> 0"
      proof
        assume "k = 0"
        with k(1) have "h = d" by simp
        with lh [OF hne] k(2) dne show False by simp
      qed
      then obtain k' where "k = Suc k'" by (cases k) auto
      with k(1) p b have "p = d @ replicate (Suc k') (CHR ''/'') @ b" by simp
      with dne t b show ?thesis using that(3) by blast
    qed
  qed
qed

lemma split_on_replicate_name:
  "sep \<notin> set b \<Longrightarrow> split_on sep (replicate j sep @ b) = replicate j [] @ [b]"
  by (induction j) (simp_all add: split_on_no_sep)

lemma normalize_seps_replicate_slash:
  "normalize_seps (replicate j (CHR ''/'')) = replicate j bs"
  by (simp add: normalize_seps_def)

lemma segs_parts_append_name:
  assumes "u \<noteq> []" and "b \<noteq> []" and "b \<noteq> ''.''"
  shows "segs_parts (u @ replicate j [] @ [b]) = (fst (segs_parts u), snd (segs_parts u) @ [b])"
proof -
  have ne: "nonempty (replicate j [] @ [b]) = [b]"
    using assms(2) by (induction j) (simp_all add: nonempty_def)
  have hd1: "hd (replicate j [] @ [b]) \<noteq> ''.''"
    using assms(3) by (cases j) simp_all
  have sk: "skip_dot (replicate j [] @ [b]) = replicate j [] @ [b]"
    using hd1 by (simp add: skip_dot_def)
  from assms(1) obtain x xs where u: "u = x # xs" by (cases u) auto
  show ?thesis
  proof (cases xs)
    case Nil
    have ne': "filter (\<lambda>p. p \<noteq> []) (replicate j [] @ [b]) = [b]"
      using ne by (simp only: nonempty_def)
    from Nil u ne' sk show ?thesis
      by (auto simp add: segs_parts_def skip_dot_def nonempty_def)
  next
    case (Cons y ys)
    have "skip_dot (xs @ replicate j [] @ [b]) = skip_dot xs @ replicate j [] @ [b]"
      using Cons by (simp add: skip_dot_Cons)
    moreover have "skip_dot (u @ replicate j [] @ [b]) = skip_dot u @ replicate j [] @ [b]"
      using u by (simp add: skip_dot_Cons)
    ultimately show ?thesis
      using u ne by (simp add: segs_parts_def)
  qed
qed

lemma segments_dot: "segments ''.'' = (FromCurrent, [])"
proof -
  have "parse_path ''.'' = [''.'']"
    by (simp add: parse_path_eq normalize_seps_def bs_def drive_segment_def)
  then show ?thesis
    by (simp add: segments_parts segs_parts_def skip_dot_def)
qed

lemma segments_name: "is_valid_filename b \<Longrightarrow> segments b = (FromCurrent, [b])"
  using segments_valid_name [of b] valid_name_chars(1) [of b]
  by (simp add: segments_def)

lemma split_on_replicate_sep: "split_on sep (replicate j sep) = replicate (Suc j) []"
  by (induction j) simp_all

text \<open>What \<open>posixpath.split\<close> returns is coherent with the parser.\<close>

lemma posixpath_split_coherent:
  assumes "posixpath_split p = (d, b)" and "is_valid_filename b"
  shows "\<exists>a ks. segments (or_dot d) = (a, ks) \<and> segments p = (a, ks @ [b])"
proof (cases rule: posixpath_split_cases [OF assms(1)])
  case 1
  with assms(2) show ?thesis by (simp add: or_dot_def segments_dot segments_name)
next
  case (2 m)
  note c = valid_name_chars [OF assms(2)]
  have nb: "normalize_seps b = b" using c by (simp add: normalize_no_slash)
  have pd: "parse_path d = [] # replicate (Suc m) []"
    unfolding 2(1) using parse_path_sep_first [of "CHR ''/''" "replicate m (CHR ''/'')"]
    by (simp add: normalize_seps_replicate_slash split_on_replicate_sep)
  have "parse_path p = [] # split_on bs (normalize_seps (replicate m (CHR ''/'') @ b))"
    unfolding 2(2) 2(1) using parse_path_sep_first [of "CHR ''/''" "replicate m (CHR ''/'') @ b"]
    by simp
  then have pp: "parse_path p = [[]] @ replicate m [] @ [b]"
    using c nb by (simp add: normalize_seps_replicate_slash split_on_replicate_name)
  have dne: "d \<noteq> []" using 2(1) by simp
  have pne: "p \<noteq> []" using 2(2) dne by simp
  have sd: "segments d = (FromCurrent, [])"
    using dne pd by (simp add: segments_parts segs_parts_def skip_dot_def nonempty_def)
  have "segs_parts ([[]] @ replicate m [] @ [b]) = (fst (segs_parts [[]]), snd (segs_parts [[]]) @ [b])"
    using c by (intro segs_parts_append_name) simp_all
  then have sp: "segments p = (FromCurrent, [b])"
    using pne pp by (simp add: segments_parts segs_parts_def skip_dot_def)
  from sd sp dne show ?thesis by (simp add: or_dot_def)
next
  case (3 k)
  note c = valid_name_chars [OF assms(2)]
  have nb: "normalize_seps b = b" using c by (simp add: normalize_no_slash)
  have "parse_path p = parse_path d @ split_on bs (normalize_seps (replicate k (CHR ''/'') @ b))"
    unfolding 3(2) using parse_path_append_sep [OF 3(1), of "CHR ''/''" "replicate k (CHR ''/'') @ b"]
    by simp
  then have pp: "parse_path p = parse_path d @ replicate k [] @ [b]"
    using c nb by (simp add: normalize_seps_replicate_slash split_on_replicate_name)
  have pne: "p \<noteq> []" using 3(2) 3(1) by simp
  have u: "parse_path d \<noteq> []" using 3(1) by simp
  from segs_parts_append_name [OF u c(1) c(2), of k] pp pne 3(1)
  have "segments p = (fst (segments d), snd (segments d) @ [b])"
    by (simp add: segments_parts)
  with 3(1) show ?thesis by (simp add: or_dot_def)
qed


text \<open>
  With \<open>posixpath.split\<close> every successful write is read back: the condition on the
  segments holds for every path whose last component is a valid name.
\<close>

lemma write_then_read_posixpath:
  assumes "os_path_split env = posixpath_split"
    and "write_file env s path txt = (Inr True, s')"
  shows "read_file env s' path = (Inr (Some txt), s') \<and>
         (\<exists>l nm cr md.
            get_node_at_path env s' path False = (Inr (Some l), s') \<and>
            get_at (root s') l = Some (File nm cr md (int (length txt)) txt))"
proof -
  obtain d b where sp: "posixpath_split path = (d, b)" by (cases "posixpath_split path")
  then have sp': "os_path_split env path = (d, b)" using assms(1) by simp
  from write_file_success [OF assms(2)] sp' have v: "is_valid_filename b" by auto
  from posixpath_split_coherent [OF sp v] obtain a ks where
    "segments (or_dot d) = (a, ks)" "segments path = (a, ks @ [b])" by blast
  from write_then_read_aux [OF sp' this assms(2)] show ?thesis .
qed

end
